theory Spec2Isabelle
  imports Complex_Main
begin

section \<open>Data model of the timeline pipeline\<close>

text \<open>
  The enumeration \<open>SubtitleType\<close> is an \<open>IntEnum\<close>: its members are used directly as
  list indices into a frame's flag vector.
\<close>

datatype SubtitleType = DIALOG | BLACKSCREEN | WHITESCREEN | CGSUB

fun SubtitleType_value :: "SubtitleType \<Rightarrow> int" where
  "SubtitleType_value DIALOG = 0"
| "SubtitleType_value BLACKSCREEN = 1"
| "SubtitleType_value WHITESCREEN = 2"
| "SubtitleType_value CGSUB = 3"

definition SubtitleType_members :: "SubtitleType list" where
  "SubtitleType_members = [DIALOG, BLACKSCREEN, WHITESCREEN, CGSUB]"

definition SubtitleType_num :: nat where
  "SubtitleType_num = length SubtitleType_members"

text \<open>
  Two kinds of failure occur in the modelled code: the explicit
  \<open>raise Exception(msg)\<close> of the \<open>FramePoint\<close> constructor, and the \<open>IndexError\<close> that
  Python itself raises when a list is indexed out of range.
\<close>

datatype error = Exception string | IndexError

text \<open>Whether a failure comes from a \<open>raise\<close> statement of the code itself.\<close>

fun isExplicitRaise :: "error \<Rightarrow> bool" where
  "isExplicitRaise (Exception msg) = True"
| "isExplicitRaise IndexError = False"

fun failsExplicitly :: "error + 'a \<Rightarrow> bool" where
  "failsExplicitly (Inl e) = isExplicitRaise e"
| "failsExplicitly (Inr v) = False"

text \<open>List subscription \<open>xs[i]\<close>; for \<open>-len(xs) \<le> i < 0\<close> it reads \<open>xs[len(xs) + i]\<close>.\<close>

definition getitem :: "'a list \<Rightarrow> int \<Rightarrow> error + 'a" where
  "getitem xs i =
     (if 0 \<le> i \<and> i < int (length xs) then Inr (xs ! nat i)
      else if i < 0 \<and> - int (length xs) \<le> i then Inr (xs ! nat (int (length xs) + i))
      else Inl IndexError)"

text \<open>
  A frame point. The constructor annotates \<open>timestamp\<close> as an int, but the producer
  passes the position in milliseconds it reads from the video, a float. Timestamps,
  and with them the bounds of intervals and the gap threshold, are therefore real
  numbers here: integer values are the annotated case, and arithmetic on fractional
  values is taken as exact. Floor division by 2 is the floor of the quotient for both.
  \<open>index\<close> is a Python int, \<open>flags\<close> a list of booleans.
\<close>

record FramePoint =
  index :: int
  timestamp :: real
  flags :: "bool list"

definition FramePoint_init :: "int \<Rightarrow> real \<Rightarrow> bool list \<Rightarrow> error + FramePoint" where
  "FramePoint_init idx ts fs =
     (if length fs \<noteq> SubtitleType_num
      then Inl (Exception ''len(flags) != SubtitleTypes.num()'')
      else Inr \<lparr>index = idx, timestamp = ts, flags = fs\<rparr>)"

record FPIR =
  framePoints :: "FramePoint list"

definition FPIR_init :: FPIR where
  "FPIR_init = \<lparr>framePoints = []\<rparr>"

definition genVirtualEnd :: "FPIR \<Rightarrow> error + FramePoint" where
  "genVirtualEnd fpir =
     (let idx = int (length (framePoints fpir))
      in case getitem (framePoints fpir) (- 1) of
           Inl e \<Rightarrow> Inl e
         | Inr lastPoint \<Rightarrow>
             FramePoint_init idx (timestamp lastPoint) (replicate SubtitleType_num False))"

definition getFramePointsWithVirtualEnd :: "FPIR \<Rightarrow> error + FramePoint list" where
  "getFramePointsWithVirtualEnd fpir =
     (case genVirtualEnd fpir of
        Inl e \<Rightarrow> Inl e
      | Inr virtualEnd \<Rightarrow> Inr (framePoints fpir @ [virtualEnd]))"

record Interval =
  begin' :: real
  end' :: real
  type' :: SubtitleType

record IIR =
  intervals :: "Interval list"

section \<open>The noise-removal pass\<close>

text \<open>
  \<open>FPIRPassRemoveNoise.apply\<close> walks the frame points left to right and mutates the
  flag of the pass's channel in place. Each \<open>FramePoint\<close> owns its flag list (the
  producer builds a fresh list per frame), so updating the list of the frame at
  position \<open>id\<close> touches no other frame. The value \<open>framePoint.flags[self.type]\<close> is
  read once per visited frame as \<open>cur\<close>: nothing writes to it while the two inner
  loops run.
\<close>

definition flagOf :: "FramePoint \<Rightarrow> SubtitleType \<Rightarrow> error + bool" where
  "flagOf framePoint ty = getitem (flags framePoint) (SubtitleType_value ty)"

text \<open>\<open>for i in range(id - 1, l - 1, -1)\<close>: the backward walk.\<close>

function walkBackward ::
  "FramePoint list \<Rightarrow> SubtitleType \<Rightarrow> bool \<Rightarrow> int \<Rightarrow> int \<Rightarrow> int \<Rightarrow> error + int" where
  "walkBackward fps ty cur i l len =
     (if i > l - 1 then
        (case getitem fps i of
           Inl e \<Rightarrow> Inl e
         | Inr fp \<Rightarrow>
            (case flagOf fp ty of
               Inl e \<Rightarrow> Inl e
             | Inr b \<Rightarrow>
                 if b \<noteq> cur then Inr len
                 else walkBackward fps ty cur (i - 1) l (len + 1)))
      else Inr len)"
  by pat_completeness auto
termination
  by (relation "measure (\<lambda>(fps, ty, cur, i, l, len). nat (i - l + 1))") auto

declare walkBackward.simps [simp del]

text \<open>\<open>for i in range(id + 1, r + 1)\<close>: the forward walk.\<close>

function walkForward ::
  "FramePoint list \<Rightarrow> SubtitleType \<Rightarrow> bool \<Rightarrow> int \<Rightarrow> int \<Rightarrow> int \<Rightarrow> error + int" where
  "walkForward fps ty cur i r len =
     (if i < r + 1 then
        (case getitem fps i of
           Inl e \<Rightarrow> Inl e
         | Inr fp \<Rightarrow>
            (case flagOf fp ty of
               Inl e \<Rightarrow> Inl e
             | Inr b \<Rightarrow>
                 if b \<noteq> cur then Inr len
                 else walkForward fps ty cur (i + 1) r (len + 1)))
      else Inr len)"
  by pat_completeness auto
termination
  by (relation "measure (\<lambda>(fps, ty, cur, i, r, len). nat (r + 1 - i))") auto

declare walkForward.simps [simp del]

text \<open>The body of the outer loop for the frame at position \<open>id\<close>.\<close>

definition removeNoiseStep ::
  "SubtitleType \<Rightarrow> int \<Rightarrow> int \<Rightarrow> nat \<Rightarrow> FramePoint list \<Rightarrow> error + FramePoint list" where
  "removeNoiseStep ty minPositiveLength minNegativeLength id' fps =
     (let framePoint = fps ! id' in
      case flagOf framePoint ty of
        Inl e \<Rightarrow> Inl e
      | Inr cur \<Rightarrow>
         (let minLength = (if cur then minPositiveLength else minNegativeLength);
              l = int id' - minLength;
              r = int id' + minLength
          in if l < 0 \<or> r > int (length fps) - 1 then Inr fps
             else
               (case walkBackward fps ty cur (int id' - 1) l 0 of
                  Inl e \<Rightarrow> Inl e
                | Inr len1 \<Rightarrow>
                   (case walkForward fps ty cur (int id' + 1) r len1 of
                      Inl e \<Rightarrow> Inl e
                    | Inr len2 \<Rightarrow>
                        if len2 < minLength
                        then Inr (fps[id' := framePoint
                               \<lparr>flags := (flags framePoint)[nat (SubtitleType_value ty) := \<not> cur]\<rparr>])
                        else Inr fps))))"

lemma removeNoiseStep_length:
  "removeNoiseStep ty p q id' fps = Inr fps' \<Longrightarrow> length fps' = length fps"
  by (auto simp: removeNoiseStep_def Let_def split: sum.splits if_splits)

text \<open>\<open>for id, framePoint in enumerate(fpir.framePoints)\<close>.\<close>

function removeNoiseLoop ::
  "SubtitleType \<Rightarrow> int \<Rightarrow> int \<Rightarrow> nat \<Rightarrow> FramePoint list \<Rightarrow> error + FramePoint list" where
  "removeNoiseLoop ty minPositiveLength minNegativeLength id' fps =
     (if id' < length fps then
        (case removeNoiseStep ty minPositiveLength minNegativeLength id' fps of
           Inl e \<Rightarrow> Inl e
         | Inr fps' \<Rightarrow> removeNoiseLoop ty minPositiveLength minNegativeLength (Suc id') fps')
      else Inr fps)"
  by pat_completeness auto
termination
  by (relation "measure (\<lambda>(ty, p, q, id', fps). length fps - id')")
     (auto dest: removeNoiseStep_length)

declare removeNoiseLoop.simps [simp del]

definition FPIRPassRemoveNoise_apply ::
  "SubtitleType \<Rightarrow> int \<Rightarrow> int \<Rightarrow> FPIR \<Rightarrow> error + FPIR" where
  "FPIRPassRemoveNoise_apply ty minPositiveLength minNegativeLength fpir =
     (case removeNoiseLoop ty minPositiveLength minNegativeLength 0 (framePoints fpir) of
        Inl e \<Rightarrow> Inl e
      | Inr fps \<Rightarrow> Inr (fpir\<lparr>framePoints := fps\<rparr>))"

section \<open>The interval-build pass\<close>

fun buildLoop ::
  "SubtitleType \<Rightarrow> FramePoint list \<Rightarrow> Interval list \<Rightarrow> real \<Rightarrow> bool \<Rightarrow> error + Interval list" where
  "buildLoop ty [] ivs lastBegin state = Inr ivs"
| "buildLoop ty (framePoint # rest) ivs lastBegin state =
     (case flagOf framePoint ty of
        Inl e \<Rightarrow> Inl e
      | Inr flag \<Rightarrow>
          if \<not> state then
            (if flag then buildLoop ty rest ivs (timestamp framePoint) True
             else buildLoop ty rest ivs lastBegin state)
          else
            (if \<not> flag
             then buildLoop ty rest
                    (ivs @ [\<lparr>begin' = lastBegin, end' = timestamp framePoint, type' = ty\<rparr>])
                    lastBegin False
             else buildLoop ty rest ivs lastBegin state))"

text \<open>
  The pass returns the intervals; the second component is the FPIR as the pass leaves
  it (the pass builds a new list \<open>framePoints + [virtualEnd]\<close> and assigns nothing).
\<close>

definition FPIRPassBuildIntervals_apply ::
  "SubtitleType \<Rightarrow> FPIR \<Rightarrow> error + (Interval list \<times> FPIR)" where
  "FPIRPassBuildIntervals_apply ty fpir =
     (case getFramePointsWithVirtualEnd fpir of
        Inl e \<Rightarrow> Inl e
      | Inr fps \<Rightarrow>
         (case buildLoop ty fps [] 0 False of
            Inl e \<Rightarrow> Inl e
          | Inr ivs \<Rightarrow> Inr (ivs, fpir)))"

section \<open>Intervals and the interval IR\<close>

definition Interval_dist :: "Interval \<Rightarrow> Interval \<Rightarrow> real" where
  "Interval_dist self other =
     (let l = (if begin' self > begin' other then other else self);
          r = (if begin' self > begin' other then self else other)
      in begin' r - end' l)"

definition Interval_intersects :: "Interval \<Rightarrow> Interval \<Rightarrow> bool" where
  "Interval_intersects self other = (Interval_dist self other < 0)"

definition Interval_touches :: "Interval \<Rightarrow> Interval \<Rightarrow> bool" where
  "Interval_touches self other = (Interval_dist self other = 0)"

text \<open>\<open>list.sort(key=...)\<close> is stable, as \<open>sort_key\<close> is.\<close>

definition IIR_sort :: "Interval list \<Rightarrow> Interval list" where
  "IIR_sort ivs = sort_key begin' ivs"

fun IIR_collect :: "SubtitleType list \<Rightarrow> FPIR \<Rightarrow> Interval list \<Rightarrow> error + Interval list" where
  "IIR_collect [] fpir ivs = Inr ivs"
| "IIR_collect (ty # tys) fpir ivs =
     (case FPIRPassBuildIntervals_apply ty fpir of
        Inl e \<Rightarrow> Inl e
      | Inr (new, fpir') \<Rightarrow> IIR_collect tys fpir' (ivs @ new))"

definition IIR_init :: "FPIR \<Rightarrow> error + IIR" where
  "IIR_init fpir =
     (case IIR_collect SubtitleType_members fpir [] of
        Inl e \<Rightarrow> Inl e
      | Inr ivs \<Rightarrow> Inr \<lparr>intervals = IIR_sort ivs\<rparr>)"

section \<open>The gap-bridging pass\<close>

text \<open>
  The \<open>while otherId < len(iir.intervals)\<close> loop for the interval at position \<open>id\<close>.
  \<open>otherId\<close> starts at \<open>id + 1\<close>, so the two positions updated on a merge differ.
\<close>

function scanForward ::
  "SubtitleType \<Rightarrow> real \<Rightarrow> nat \<Rightarrow> nat \<Rightarrow> Interval list \<Rightarrow> Interval list" where
  "scanForward ty maxBlank id' otherId ivs =
     (if otherId < length ivs then
        (let interval = ivs ! id'; otherInterval = ivs ! otherId in
         if type' otherInterval \<noteq> ty then scanForward ty maxBlank id' (otherId + 1) ivs
         else if Interval_dist interval otherInterval > maxBlank then ivs
         else if Interval_dist interval otherInterval \<le> 0
              then scanForward ty maxBlank id' (otherId + 1) ivs
         else (let mid = real_of_int \<lfloor>(end' interval + begin' otherInterval) / 2\<rfloor>
               in (ivs[id' := interval\<lparr>end' := mid\<rparr>])
                     [otherId := otherInterval\<lparr>begin' := mid\<rparr>]))
      else ivs)"
  by pat_completeness auto
termination
  by (relation "measure (\<lambda>(ty, maxBlank, id', otherId, ivs). length ivs - otherId)") auto

declare scanForward.simps [simp del]

lemma scanForward_length: "length (scanForward ty maxBlank id' otherId ivs) = length ivs"
  by (induction ty maxBlank id' otherId ivs rule: scanForward.induct)
     (subst scanForward.simps, simp add: Let_def)

function sweep :: "SubtitleType \<Rightarrow> real \<Rightarrow> nat \<Rightarrow> Interval list \<Rightarrow> Interval list" where
  "sweep ty maxBlank id' ivs =
     (if id' < length ivs then
        (if type' (ivs ! id') \<noteq> ty then sweep ty maxBlank (Suc id') ivs
         else sweep ty maxBlank (Suc id') (scanForward ty maxBlank id' (id' + 1) ivs))
      else ivs)"
  by pat_completeness auto
termination
  by (relation "measure (\<lambda>(ty, maxBlank, id', ivs). length ivs - id')")
     (auto simp: scanForward_length)

declare sweep.simps [simp del]

definition IIRPassFillFlashBlank_apply :: "SubtitleType \<Rightarrow> real \<Rightarrow> IIR \<Rightarrow> IIR" where
  "IIRPassFillFlashBlank_apply ty maxBlank iir =
     iir\<lparr>intervals := IIR_sort (sweep ty maxBlank 0 (intervals iir))\<rparr>"

section \<open>Specification-level descriptions\<close>

text \<open>
  A frame sequence is well formed when every frame carries one flag per channel, which
  is what the \<open>FramePoint\<close> constructor enforces for every frame it builds.
\<close>

definition wellFormed :: "FramePoint list \<Rightarrow> bool" where
  "wellFormed fps = list_all (\<lambda>fp. length (flags fp) = SubtitleType_num) fps"

text \<open>The flags of one channel over the whole sequence, and the sequence with them replaced.\<close>

definition column :: "SubtitleType \<Rightarrow> FramePoint list \<Rightarrow> bool list" where
  "column ty fps = map (\<lambda>fp. flags fp ! nat (SubtitleType_value ty)) fps"

definition withFlag :: "SubtitleType \<Rightarrow> bool \<Rightarrow> FramePoint \<Rightarrow> FramePoint" where
  "withFlag ty b fp = fp\<lparr>flags := (flags fp)[nat (SubtitleType_value ty) := b]\<rparr>"

definition setColumn :: "SubtitleType \<Rightarrow> bool list \<Rightarrow> FramePoint list \<Rightarrow> FramePoint list" where
  "setColumn ty cs fps = map (\<lambda>(b, fp). withFlag ty b fp) (zip cs fps)"

text \<open>
  Noise removal as the specification words it, on one channel's flags \<open>fs\<close>: at index
  \<open>i\<close> the applicable length \<open>m\<close> is chosen by the stored flag; the backward count
  looks at the \<open>m\<close> frames before \<open>i\<close>, nearest first, the forward count at the \<open>m\<close>
  frames after \<open>i\<close>, each up to the first flag that differs from the one at \<open>i\<close>; the
  flag at \<open>i\<close> is flipped when the two counts sum to less than \<open>m\<close>. Indices are
  visited in increasing order, each on the result of the previous ones.
\<close>

definition countBackward :: "bool list \<Rightarrow> nat \<Rightarrow> nat \<Rightarrow> nat" where
  "countBackward fs i m = length (takeWhile (\<lambda>b. b = fs ! i) (take m (rev (take i fs))))"

definition countForward :: "bool list \<Rightarrow> nat \<Rightarrow> nat \<Rightarrow> nat" where
  "countForward fs i m = length (takeWhile (\<lambda>b. b = fs ! i) (take m (drop (Suc i) fs)))"

definition denoiseAt :: "int \<Rightarrow> int \<Rightarrow> nat \<Rightarrow> bool list \<Rightarrow> bool list" where
  "denoiseAt minPositiveLength minNegativeLength i fs =
     (let minLength = (if fs ! i then minPositiveLength else minNegativeLength)
      in if int i - minLength < 0 \<or> int i + minLength > int (length fs) - 1 then fs
         else if int (countBackward fs i (nat minLength) + countForward fs i (nat minLength))
                 < minLength
              then fs[i := \<not> fs ! i]
              else fs)"

definition denoise :: "int \<Rightarrow> int \<Rightarrow> bool list \<Rightarrow> bool list" where
  "denoise minPositiveLength minNegativeLength fs =
     fold (denoiseAt minPositiveLength minNegativeLength) [0..<length fs] fs"

text \<open>
  Gap bridging as the specification words it. The scan for interval \<open>A\<close> over the
  later intervals passes over intervals of other channels, passes over same-channel
  intervals at distance at most zero, stops at a same-channel interval farther than
  \<open>maxGap\<close>, and otherwise moves \<open>A.end\<close> and \<open>B.begin\<close> to
  \<open>floor((A.end + B.begin) / 2)\<close> and stops.
  The scan returns the updated \<open>A\<close> and the updated later intervals.
\<close>

definition midpoint :: "Interval \<Rightarrow> Interval \<Rightarrow> real" where
  "midpoint A B = real_of_int \<lfloor>(end' A + begin' B) / 2\<rfloor>"

fun bridgeScan ::
  "SubtitleType \<Rightarrow> real \<Rightarrow> Interval \<Rightarrow> Interval list \<Rightarrow> Interval \<times> Interval list" where
  "bridgeScan ty maxGap A [] = (A, [])"
| "bridgeScan ty maxGap A (B # later) =
     (if type' B \<noteq> ty \<or> Interval_dist A B \<le> 0
      then (fst (bridgeScan ty maxGap A later), B # snd (bridgeScan ty maxGap A later))
      else if Interval_dist A B > maxGap then (A, B # later)
      else (A\<lparr>end' := midpoint A B\<rparr>, B\<lparr>begin' := midpoint A B\<rparr> # later))"

lemma bridgeScan_length: "length (snd (bridgeScan ty maxGap A later)) = length later"
  by (induction later) auto

function bridgeSweep :: "SubtitleType \<Rightarrow> real \<Rightarrow> Interval list \<Rightarrow> Interval list" where
  "bridgeSweep ty maxGap [] = []"
| "bridgeSweep ty maxGap (A # later) =
     (if type' A \<noteq> ty then A # bridgeSweep ty maxGap later
      else fst (bridgeScan ty maxGap A later)
             # bridgeSweep ty maxGap (snd (bridgeScan ty maxGap A later)))"
  by pat_completeness auto
termination
  by (relation "measure (\<lambda>(ty, maxGap, ivs). length ivs)") (auto simp: bridgeScan_length)

definition bridgeGaps :: "SubtitleType \<Rightarrow> real \<Rightarrow> Interval list \<Rightarrow> Interval list" where
  "bridgeGaps ty maxGap ivs = sort_key begin' (bridgeSweep ty maxGap ivs)"

text \<open>The intervals of one channel, in collection order.\<close>

definition ofChannel :: "SubtitleType \<Rightarrow> Interval list \<Rightarrow> Interval list" where
  "ofChannel ty ivs = filter (\<lambda>I. type' I = ty) ivs"

text \<open>
  When the pass flips the flag it visits. Index \<open>i\<close> is covered by a uniform block of
  \<open>m + 1\<close> frames when, for some split \<open>a + b = m\<close>, all flags from \<open>i - a\<close> to \<open>i + b\<close>
  equal the flag at \<open>i\<close>; the two counts sum to at least \<open>m\<close> exactly then. The flag at
  \<open>i\<close> is flipped when its applicable length is positive, the window fits and \<open>i\<close> is
  not covered. A flag list is settled up to \<open>k\<close> when no index below \<open>k\<close> would be
  flipped.
\<close>

definition covered :: "bool list \<Rightarrow> nat \<Rightarrow> nat \<Rightarrow> bool" where
  "covered fs i m =
     (\<exists>a b. a + b = m \<and> a \<le> i \<and> i + b < length fs
        \<and> (\<forall>d. i - a \<le> d \<and> d \<le> i + b \<longrightarrow> fs ! d = fs ! i))"

definition flipsAt :: "int \<Rightarrow> int \<Rightarrow> bool list \<Rightarrow> nat \<Rightarrow> bool" where
  "flipsAt p q fs i =
     (let m = (if fs ! i then p else q)
      in 0 < m \<and> m \<le> int i \<and> int i + m < int (length fs) \<and> \<not> covered fs i (nat m))"

definition settledUpTo :: "int \<Rightarrow> int \<Rightarrow> nat \<Rightarrow> bool list \<Rightarrow> bool" where
  "settledUpTo p q k fs = (\<forall>i<k. \<not> flipsAt p q fs i)"


definition endsWholeOrLong :: "Interval \<Rightarrow> bool" where
  "endsWholeOrLong I = (end' I \<in> \<int> \<or> begin' I + 1 \<le> end' I)"

text \<open>
  Shapes of one channel's intervals in collection order. A loose chain: every interval
  begins no later than it ends and ends before every later one begins. A touching
  chain: the same with "ends no later than". Whole but last: every interval except the
  last ends whole or is long. \<open>chainFrom\<close> and \<open>bridgeChain\<close> give the result of gap
  bridging on a loose chain in closed form: each neighbouring pair whose gap is at
  most \<open>maxGap\<close> meets at the floor of its midpoint.
\<close>

fun looseChain :: "Interval list \<Rightarrow> bool" where
  "looseChain [] = True"
| "looseChain (x # xs) =
     (begin' x \<le> end' x \<and> (\<forall>y\<in>set xs. end' x < begin' y) \<and> looseChain xs)"

fun touchChain :: "Interval list \<Rightarrow> bool" where
  "touchChain [] = True"
| "touchChain (x # xs) =
     (begin' x \<le> end' x \<and> (\<forall>y\<in>set xs. end' x \<le> begin' y) \<and> touchChain xs)"

fun wholeButLast :: "Interval list \<Rightarrow> bool" where
  "wholeButLast [] = True"
| "wholeButLast (x # xs) = ((xs \<noteq> [] \<longrightarrow> endsWholeOrLong x) \<and> wholeButLast xs)"

fun chainFrom :: "real \<Rightarrow> real \<Rightarrow> Interval list \<Rightarrow> Interval list" where
  "chainFrom maxGap b [] = []"
| "chainFrom maxGap b [x] = [x\<lparr>begin' := b\<rparr>]"
| "chainFrom maxGap b (x # y # zs) =
     (if begin' y - end' x \<le> maxGap
      then x\<lparr>begin' := b, end' := midpoint x y\<rparr> # chainFrom maxGap (midpoint x y) (y # zs)
      else x\<lparr>begin' := b\<rparr> # chainFrom maxGap (begin' y) (y # zs))"

definition bridgeChain :: "real \<Rightarrow> Interval list \<Rightarrow> Interval list" where
  "bridgeChain maxGap c = (case c of [] \<Rightarrow> [] | x # xs \<Rightarrow> chainFrom maxGap (begin' x) c)"

section \<open>Construction of frame points\<close>

text \<open>
  Claim C8. Constructing a \<open>FramePoint\<close> fails, with the constructor's own exception,
  exactly when the flag list does not have one entry per channel (four); otherwise the
  constructor returns the frame point holding the given index, timestamp and flags
  unchanged. The failure is the constructor's result itself, so it precedes any use.
\<close>

theorem FramePoint_init_checks_length:
  "SubtitleType_num = 4 \<and>
   (isl (FramePoint_init idx ts fs) \<longleftrightarrow> length fs \<noteq> 4) \<and>
   (length fs \<noteq> 4 \<longrightarrow>
      FramePoint_init idx ts fs = Inl (Exception ''len(flags) != SubtitleTypes.num()'')) \<and>
   (length fs = 4 \<longrightarrow>
      FramePoint_init idx ts fs = Inr \<lparr>index = idx, timestamp = ts, flags = fs\<rparr>)"
  by (simp add: FramePoint_init_def SubtitleType_num_def SubtitleType_members_def)

theorem FramePoint_init_checks_length_witness:
  "length [True, False, False, True] = 4 \<and>
   FramePoint_init 7 700 [True, False, False, True]
     = Inr \<lparr>index = 7, timestamp = 700, flags = [True, False, False, True]\<rparr> \<and>
   length [True, False] \<noteq> 4 \<and>
   isl (FramePoint_init 7 700 [True, False])"
  using FramePoint_init_checks_length [of 7 700 "[True, False, False, True]"]
        FramePoint_init_checks_length [of 7 700 "[True, False]"]
  by simp

section \<open>Distance between intervals\<close>

text \<open>
  Claim C9, as stated, fails: the distance is not symmetric when both intervals begin
  at the same time and end at different times, because the receiver is taken as the
  left interval unless its begin is strictly larger.
\<close>

theorem Interval_dist_tie_not_symmetric:
  "Interval_dist \<lparr>begin' = 0, end' = 10, type' = DIALOG\<rparr>
                 \<lparr>begin' = 0, end' = 20, type' = DIALOG\<rparr> = - 10 \<and>
   Interval_dist \<lparr>begin' = 0, end' = 20, type' = DIALOG\<rparr>
                 \<lparr>begin' = 0, end' = 10, type' = DIALOG\<rparr> = - 20 \<and>
   Interval_dist \<lparr>begin' = 0, end' = 10, type' = DIALOG\<rparr>
                 \<lparr>begin' = 0, end' = 20, type' = DIALOG\<rparr>
     \<noteq> Interval_dist \<lparr>begin' = 0, end' = 20, type' = DIALOG\<rparr>
                      \<lparr>begin' = 0, end' = 10, type' = DIALOG\<rparr>"
  by (simp add: Interval_dist_def)

text \<open>
  Claim C9, amended. \<open>dist(A, B)\<close> is \<open>R.begin - L.end\<close> where \<open>L\<close> is \<open>B\<close> if \<open>A\<close> begins
  strictly later than \<open>B\<close>, and \<open>A\<close> otherwise (so \<open>L = A\<close> when both begin together).
  The distance is symmetric whenever the begins differ or the ends agree. Its sign
  reads off the position of \<open>R\<close> against the end of \<open>L\<close>: negative exactly when \<open>R\<close>
  begins before \<open>L\<close> ends (the intervals intersect), zero exactly when \<open>R\<close> begins
  where \<open>L\<close> ends (they touch), positive exactly when \<open>R\<close> begins after \<open>L\<close> ends, and
  then the value is that gap.
\<close>

theorem Interval_dist_left_right:
  "Interval_dist A B =
     (if begin' A > begin' B then begin' A - end' B else begin' B - end' A) \<and>
   (begin' A \<noteq> begin' B \<or> end' A = end' B \<longrightarrow> Interval_dist A B = Interval_dist B A) \<and>
   (begin' A \<le> begin' B \<longrightarrow>
      (Interval_intersects A B \<longleftrightarrow> begin' B < end' A) \<and>
      (Interval_touches A B \<longleftrightarrow> begin' B = end' A) \<and>
      (0 < Interval_dist A B \<longleftrightarrow> end' A < begin' B) \<and>
      Interval_dist A B = begin' B - end' A) \<and>
   (Interval_intersects A B \<longleftrightarrow> Interval_dist A B < 0) \<and>
   (Interval_touches A B \<longleftrightarrow> Interval_dist A B = 0)"
  by (auto simp: Interval_dist_def Interval_intersects_def Interval_touches_def)

theorem Interval_dist_left_right_witness:
  "begin' \<lparr>begin' = 150, end' = 250, type' = DIALOG\<rparr>
     \<noteq> begin' \<lparr>begin' = 0, end' = 100, type' = DIALOG\<rparr> \<and>
   Interval_dist \<lparr>begin' = 150, end' = 250, type' = DIALOG\<rparr>
                 \<lparr>begin' = 0, end' = 100, type' = DIALOG\<rparr> = 50 \<and>
   Interval_dist \<lparr>begin' = 0, end' = 100, type' = DIALOG\<rparr>
                 \<lparr>begin' = 150, end' = 250, type' = DIALOG\<rparr> = 50 \<and>
   \<not> Interval_intersects \<lparr>begin' = 0, end' = 100, type' = DIALOG\<rparr>
                         \<lparr>begin' = 150, end' = 250, type' = DIALOG\<rparr>"
  using Interval_dist_left_right
          [of "\<lparr>begin' = 150, end' = 250, type' = DIALOG\<rparr>"
              "\<lparr>begin' = 0, end' = 100, type' = DIALOG\<rparr>"]
        Interval_dist_left_right
          [of "\<lparr>begin' = 0, end' = 100, type' = DIALOG\<rparr>"
              "\<lparr>begin' = 150, end' = 250, type' = DIALOG\<rparr>"]
  by simp

section \<open>Interval extraction from an empty FPIR\<close>

text \<open>
  Claim C7, as stated, fails on the kind of error: on an FPIR without frame points the
  extraction does fail, but not through a check of its own that raises; the failure
  is the \<open>IndexError\<close> of reading the last element of the empty list.
\<close>

theorem empty_FPIR_error_not_explicit:
  "\<not> failsExplicitly (FPIRPassBuildIntervals_apply DIALOG FPIR_init)"
  by (simp add: FPIRPassBuildIntervals_apply_def getFramePointsWithVirtualEnd_def
        genVirtualEnd_def getitem_def FPIR_init_def)

text \<open>
  Claim C7, amended. On an FPIR without frame points, computing the virtual end point
  fails with the \<open>IndexError\<close> raised by indexing the last element of the empty
  sequence; the failure propagates unchanged through the extended frame list, the
  interval-build pass of every channel and the construction of the interval IR, so no
  virtual end point is computed and no intervals are returned.
\<close>

theorem empty_FPIR_IndexError:
  "genVirtualEnd FPIR_init = Inl IndexError \<and>
   getFramePointsWithVirtualEnd FPIR_init = Inl IndexError \<and>
   FPIRPassBuildIntervals_apply ty FPIR_init = Inl IndexError \<and>
   IIR_init FPIR_init = Inl IndexError"
  by (simp add: FPIRPassBuildIntervals_apply_def getFramePointsWithVirtualEnd_def
        genVirtualEnd_def getitem_def FPIR_init_def IIR_init_def SubtitleType_members_def)

section \<open>The noise-removal pass computes the specified scan\<close>

lemma SubtitleType_value_range: "0 \<le> SubtitleType_value ty \<and> SubtitleType_value ty < 4"
  by (cases ty) auto

lemma SubtitleType_num_4: "SubtitleType_num = 4"
  by (simp add: SubtitleType_num_def SubtitleType_members_def)

lemma getitem_nat: "0 \<le> i \<Longrightarrow> i < int (length xs) \<Longrightarrow> getitem xs i = Inr (xs ! nat i)"
  by (simp add: getitem_def)

lemma flagOf_wf:
  "length (flags fp) = 4 \<Longrightarrow> flagOf fp ty = Inr (flags fp ! nat (SubtitleType_value ty))"
  using SubtitleType_value_range [of ty] by (simp add: flagOf_def getitem_def)

lemma wellFormed_nth: "wellFormed fps \<Longrightarrow> i < length fps \<Longrightarrow> length (flags (fps ! i)) = 4"
  by (simp add: wellFormed_def list_all_length SubtitleType_num_4)

lemma column_length [simp]: "length (column ty fps) = length fps"
  by (simp add: column_def)

lemma column_nth: "i < length fps \<Longrightarrow> column ty fps ! i = flags (fps ! i) ! nat (SubtitleType_value ty)"
  by (simp add: column_def)

lemma walkBackward_count:
  "wellFormed fps \<Longrightarrow> 0 \<le> l \<Longrightarrow> i < int (length fps) \<Longrightarrow>
   walkBackward fps ty cur i l len =
     Inr (len + int (length (takeWhile (\<lambda>b. b = cur)
                  (rev (drop (nat l) (take (nat (i + 1)) (column ty fps)))))))"
proof (induction fps ty cur i l len rule: walkBackward.induct)
  case (1 fps ty cur i l len)
  show ?case
  proof (cases "i > l - 1")
    case False
    then have "nat (i + 1) \<le> nat l" by simp
    then have "drop (nat l) (take (nat (i + 1)) (column ty fps)) = []" by simp
    with False show ?thesis by (subst walkBackward.simps) simp
  next
    case True
    with 1(3) have i0: "0 \<le> i" by simp
    with 1(4) have ilen: "nat i < length fps" by simp
    have fl: "flagOf (fps ! nat i) ty = Inr (column ty fps ! nat i)"
      using flagOf_wf [OF wellFormed_nth [OF 1(2) ilen]] ilen by (simp add: column_nth)
    have tk: "take (nat (i + 1)) (column ty fps) = take (nat i) (column ty fps) @ [column ty fps ! nat i]"
      using i0 ilen by (simp add: nat_add_distrib take_Suc_conv_app_nth)
    have dr: "drop (nat l) (take (nat (i + 1)) (column ty fps))
              = drop (nat l) (take (nat i) (column ty fps)) @ [column ty fps ! nat i]"
      using True i0 ilen 1(3) by (simp add: tk)
    show ?thesis
    proof (cases "column ty fps ! nat i = cur")
      case False
      then show ?thesis using True i0 1(4) fl
        by (subst walkBackward.simps) (simp add: getitem_nat dr)
    next
      case eq: True
      have "walkBackward fps ty cur (i - 1) l (len + 1) =
            Inr (len + 1 + int (length (takeWhile (\<lambda>b. b = cur)
                  (rev (drop (nat l) (take (nat (i - 1 + 1)) (column ty fps)))))))"
        using 1(1) [OF True _ _ _ 1(2) 1(3)] getitem_nat [OF i0 1(4)] fl eq 1(4) by simp
      then show ?thesis using True i0 1(4) fl eq
        by (subst walkBackward.simps) (simp add: getitem_nat dr)
    qed
  qed
qed

lemma walkForward_count:
  "wellFormed fps \<Longrightarrow> 0 \<le> i \<Longrightarrow> r < int (length fps) \<Longrightarrow>
   walkForward fps ty cur i r len =
     Inr (len + int (length (takeWhile (\<lambda>b. b = cur)
                  (take (nat (r + 1 - i)) (drop (nat i) (column ty fps))))))"
proof (induction fps ty cur i r len rule: walkForward.induct)
  case (1 fps ty cur i r len)
  show ?case
  proof (cases "i < r + 1")
    case False
    then show ?thesis by (subst walkForward.simps) simp
  next
    case True
    with 1(4) have ilen: "nat i < length fps" and ilen': "i < int (length fps)" using 1(3) by auto
    have fl: "flagOf (fps ! nat i) ty = Inr (column ty fps ! nat i)"
      using flagOf_wf [OF wellFormed_nth [OF 1(2) ilen]] ilen by (simp add: column_nth)
    have dr: "drop (nat i) (column ty fps) = column ty fps ! nat i # drop (nat (i + 1)) (column ty fps)"
      using ilen 1(3) by (simp add: Cons_nth_drop_Suc nat_add_distrib)
    have tk: "nat (r + 1 - i) = Suc (nat (r + 1 - (i + 1)))" using True by simp
    show ?thesis
    proof (cases "column ty fps ! nat i = cur")
      case False
      then show ?thesis using True 1(3) ilen' fl
        by (subst walkForward.simps) (simp add: getitem_nat dr tk del: drop_Suc_Cons)
    next
      case eq: True
      have "walkForward fps ty cur (i + 1) r (len + 1) =
            Inr (len + 1 + int (length (takeWhile (\<lambda>b. b = cur)
                  (take (nat (r + 1 - (i + 1))) (drop (nat (i + 1)) (column ty fps))))))"
        using 1(1) [OF True _ _ _ 1(2) _ 1(4)] getitem_nat [OF 1(3) ilen'] fl eq 1(3) by simp
      then show ?thesis using True 1(3) ilen' fl eq
        by (subst walkForward.simps) (simp add: getitem_nat dr tk)
    qed
  qed
qed

lemma withFlag_withFlag [simp]: "withFlag ty v (withFlag ty c fp) = withFlag ty v fp"
  by (simp add: withFlag_def)

lemma setColumn_length [simp]: "length (setColumn ty cs fps) = min (length cs) (length fps)"
  by (simp add: setColumn_def)

lemma setColumn_nth:
  "i < length cs \<Longrightarrow> i < length fps \<Longrightarrow> setColumn ty cs fps ! i = withFlag ty (cs ! i) (fps ! i)"
  by (simp add: setColumn_def)

lemma setColumn_update:
  "length cs = length fps \<Longrightarrow> i < length fps \<Longrightarrow>
   (setColumn ty cs fps)[i := withFlag ty v (setColumn ty cs fps ! i)] = setColumn ty (cs[i := v]) fps"
  by (rule nth_equalityI) (auto simp: setColumn_nth nth_list_update)

lemma setColumn_wellFormed:
  "wellFormed fps \<Longrightarrow> wellFormed (setColumn ty cs fps)"
  by (auto simp: wellFormed_def list_all_length setColumn_nth withFlag_def)

lemma setColumn_column:
  "wellFormed fps \<Longrightarrow> length cs = length fps \<Longrightarrow> column ty (setColumn ty cs fps) = cs"
proof (rule nth_equalityI)
  show "wellFormed fps \<Longrightarrow> length cs = length fps \<Longrightarrow> length (column ty (setColumn ty cs fps)) = length cs"
    by simp
next
  fix i assume wf: "wellFormed fps" and len: "length cs = length fps"
    and i: "i < length (column ty (setColumn ty cs fps))"
  then have i': "i < length fps" by simp
  have "nat (SubtitleType_value ty) < length (flags (fps ! i))"
    using wellFormed_nth [OF wf i'] by (cases ty) simp_all
  then show "column ty (setColumn ty cs fps) ! i = cs ! i"
    using i' len by (simp add: column_nth setColumn_nth withFlag_def)
qed

lemma column_setColumn_id:
  "wellFormed fps \<Longrightarrow> setColumn ty (column ty fps) fps = fps"
  by (rule nth_equalityI) (auto simp: setColumn_nth column_nth withFlag_def)

lemma denoiseAt_length [simp]: "length (denoiseAt p q i fs) = length fs"
  by (simp add: denoiseAt_def Let_def)

lemma removeNoiseStep_denoiseAt:
  assumes wf: "wellFormed fps0" and len: "length cs = length fps0" and i: "i < length fps0"
  shows "removeNoiseStep ty p q i (setColumn ty cs fps0) = Inr (setColumn ty (denoiseAt p q i cs) fps0)"
proof -
  let ?fps = "setColumn ty cs fps0"
  have wf': "wellFormed ?fps" by (rule setColumn_wellFormed [OF wf])
  have col: "column ty ?fps = cs" by (rule setColumn_column [OF wf len])
  have ilen: "i < length ?fps" using i len by simp
  have flen: "length ?fps = length cs" using len by simp
  have fl: "flagOf (?fps ! i) ty = Inr (cs ! i)"
    using flagOf_wf [OF wellFormed_nth [OF wf' ilen]] column_nth [OF ilen, of ty] col by simp
  define m where "m = (if cs ! i then p else q)"
  show ?thesis
  proof (cases "int i - m < 0 \<or> int i + m > int (length cs) - 1")
    case True
    then show ?thesis using fl flen
      by (simp add: removeNoiseStep_def denoiseAt_def Let_def m_def)
  next
    case False
    then have l0: "0 \<le> int i - m" and r1: "int i + m < int (length ?fps)" using flen by auto
    have i1: "int i - 1 < int (length ?fps)" using ilen by linarith
    have bkw: "walkBackward ?fps ty (cs ! i) (int i - 1) (int i - m) 0 = Inr (int (countBackward cs i (nat m)))"
    proof -
      have "rev (drop (nat (int i - m)) (take i cs)) = take (nat m) (rev (take i cs))"
      proof -
        have "i - nat (int i - m) = nat m" using l0 by arith
        then show ?thesis using i len by (simp add: rev_drop)
      qed
      then show ?thesis
        using walkBackward_count [OF wf' l0 i1, of ty "cs ! i" 0] col
        by (simp add: countBackward_def)
    qed
    have fwd: "walkForward ?fps ty (cs ! i) (int i + 1) (int i + m) len1
               = Inr (len1 + int (countForward cs i (nat m)))" for len1
      using walkForward_count [OF wf' _ r1, of "int i + 1" ty "cs ! i" len1] col
      by (simp add: countForward_def nat_add_distrib)
    have upd: "?fps[i := (?fps ! i)\<lparr>flags := (flags (?fps ! i))[nat (SubtitleType_value ty) := \<not> cs ! i]\<rparr>]
               = setColumn ty (cs[i := \<not> cs ! i]) fps0"
      using setColumn_update [OF len i, of ty "\<not> cs ! i"] by (simp add: withFlag_def)
    show ?thesis using False fl flen bkw fwd upd
      by (simp add: removeNoiseStep_def denoiseAt_def Let_def m_def)
  qed
qed

lemma removeNoiseLoop_fold:
  "wellFormed fps0 \<Longrightarrow> length cs = length fps0 \<Longrightarrow>
   removeNoiseLoop ty p q i (setColumn ty cs fps0)
     = Inr (setColumn ty (fold (denoiseAt p q) [i..<length fps0] cs) fps0)"
proof (induction "length fps0 - i" arbitrary: i cs)
  case 0
  then show ?case by (subst removeNoiseLoop.simps) simp
next
  case (Suc d)
  then have i: "i < length fps0" by simp
  have step: "removeNoiseStep ty p q i (setColumn ty cs fps0)
              = Inr (setColumn ty (denoiseAt p q i cs) fps0)"
    by (rule removeNoiseStep_denoiseAt [OF Suc(3) Suc(4) i])
  have "removeNoiseLoop ty p q (Suc i) (setColumn ty (denoiseAt p q i cs) fps0)
        = Inr (setColumn ty (fold (denoiseAt p q) [Suc i..<length fps0] (denoiseAt p q i cs)) fps0)"
    using Suc(1) [of "Suc i" "denoiseAt p q i cs"] Suc(2) Suc(3) Suc(4) by simp
  then show ?case using i step Suc(4)
    by (subst removeNoiseLoop.simps) (simp add: upt_conv_Cons)
qed

lemma removeNoise_apply_denoise:
  assumes "wellFormed (framePoints fpir)"
  shows "FPIRPassRemoveNoise_apply ty p q fpir
         = Inr (fpir\<lparr>framePoints :=
                  setColumn ty (denoise p q (column ty (framePoints fpir))) (framePoints fpir)\<rparr>)"
  using removeNoiseLoop_fold [OF assms, of "column ty (framePoints fpir)" ty p q 0]
    column_setColumn_id [OF assms, of ty]
  by (simp add: FPIRPassRemoveNoise_apply_def denoise_def)

lemma denoiseAt_other: "k \<noteq> j \<Longrightarrow> denoiseAt p q j fs ! k = fs ! k"
  by (simp add: denoiseAt_def Let_def)

lemma fold_denoiseAt_length [simp]: "length (fold (denoiseAt p q) js fs) = length fs"
  by (induction js arbitrary: fs) simp_all

lemma fold_denoiseAt_other: "k \<notin> set js \<Longrightarrow> fold (denoiseAt p q) js fs ! k = fs ! k"
  by (induction js arbitrary: fs) (auto simp: denoiseAt_other)

lemma denoise_split:
  "i < length fs \<Longrightarrow>
   denoise p q fs = fold (denoiseAt p q) [Suc i..<length fs]
                      (denoiseAt p q i (fold (denoiseAt p q) [0..<i] fs))"
proof -
  assume i: "i < length fs"
  have "[0..<length fs] = [0..<i] @ i # [Suc i..<length fs]"
    using i by (metis less_imp_le_nat upt_add_eq_append le0 upt_conv_Cons le_add_diff_inverse plus_nat.add_0)
  then show ?thesis by (simp add: denoise_def)
qed

lemma denoise_boundary:
  assumes i: "i < length fs"
    and edge: "int i < (if fs ! i then p else q)
               \<or> int i > int (length fs) - 1 - (if fs ! i then p else q)"
  shows "denoise p q fs ! i = fs ! i"
proof -
  let ?s = "fold (denoiseAt p q) [0..<i] fs"
  have si: "?s ! i = fs ! i" by (rule fold_denoiseAt_other) simp
  have "denoiseAt p q i ?s = ?s" using edge si by (auto simp: denoiseAt_def Let_def)
  then have "denoise p q fs ! i = ?s ! i"
    using denoise_split [OF i, of p q] fold_denoiseAt_other [of i "[Suc i..<length fs]" p q ?s]
    by simp
  with si show ?thesis by simp
qed

lemma denoise_length [simp]: "length (denoise p q fs) = length fs"
  by (simp add: denoise_def)

text \<open>
  Claim C1. On a well-formed frame sequence the pass returns normally, and the frames
  it leaves are the original ones with the channel's flags replaced by the result of
  the specified scan: indices in increasing order, each step reading the flags as the
  earlier steps left them, choosing the applicable length by the stored flag, skipping
  the index when the window does not fit, counting equal flags backward and forward up
  to the first different one within the window, and flipping exactly when the two
  counts sum to less than the applicable length. On the flags \<open>[T,F,T,T,F]\<close> with both
  lengths 1 the result is \<open>[T,T,T,T,F]\<close>.
\<close>

theorem removeNoise_is_specified_scan:
  assumes "wellFormed (framePoints fpir)"
  shows "FPIRPassRemoveNoise_apply ty minPositiveLength minNegativeLength fpir
         = Inr (fpir\<lparr>framePoints :=
                  setColumn ty
                    (denoise minPositiveLength minNegativeLength (column ty (framePoints fpir)))
                    (framePoints fpir)\<rparr>)"
  using removeNoiseLoop_fold [OF assms, of "column ty (framePoints fpir)" ty
          minPositiveLength minNegativeLength 0]
    column_setColumn_id [OF assms, of ty]
  by (simp add: FPIRPassRemoveNoise_apply_def denoise_def)

theorem removeNoise_is_specified_scan_witness:
  "wellFormed
     [\<lparr>index = 0, timestamp = 0, flags = [True, False, False, False]\<rparr>,
      \<lparr>index = 1, timestamp = 100, flags = [False, False, False, False]\<rparr>,
      \<lparr>index = 2, timestamp = 200, flags = [True, False, False, False]\<rparr>,
      \<lparr>index = 3, timestamp = 300, flags = [True, False, False, False]\<rparr>,
      \<lparr>index = 4, timestamp = 400, flags = [False, False, False, False]\<rparr>] \<and>
   denoise 1 1 [True, False, True, True, False] = [True, True, True, True, False] \<and>
   FPIRPassRemoveNoise_apply DIALOG 1 1
     \<lparr>framePoints =
        [\<lparr>index = 0, timestamp = 0, flags = [True, False, False, False]\<rparr>,
         \<lparr>index = 1, timestamp = 100, flags = [False, False, False, False]\<rparr>,
         \<lparr>index = 2, timestamp = 200, flags = [True, False, False, False]\<rparr>,
         \<lparr>index = 3, timestamp = 300, flags = [True, False, False, False]\<rparr>,
         \<lparr>index = 4, timestamp = 400, flags = [False, False, False, False]\<rparr>]\<rparr>
   = Inr \<lparr>framePoints =
        [\<lparr>index = 0, timestamp = 0, flags = [True, False, False, False]\<rparr>,
         \<lparr>index = 1, timestamp = 100, flags = [True, False, False, False]\<rparr>,
         \<lparr>index = 2, timestamp = 200, flags = [True, False, False, False]\<rparr>,
         \<lparr>index = 3, timestamp = 300, flags = [True, False, False, False]\<rparr>,
         \<lparr>index = 4, timestamp = 400, flags = [False, False, False, False]\<rparr>]\<rparr>"
proof -
  let ?fps = "[\<lparr>index = 0, timestamp = 0, flags = [True, False, False, False]\<rparr>,
      \<lparr>index = 1, timestamp = 100, flags = [False, False, False, False]\<rparr>,
      \<lparr>index = 2, timestamp = 200, flags = [True, False, False, False]\<rparr>,
      \<lparr>index = 3, timestamp = 300, flags = [True, False, False, False]\<rparr>,
      \<lparr>index = 4, timestamp = 400, flags = [False, False, False, False]\<rparr>]"
  have wf: "wellFormed (framePoints \<lparr>framePoints = ?fps\<rparr>)" by code_simp
  have col: "column DIALOG ?fps = [True, False, True, True, False]" by code_simp
  have dn: "denoise 1 1 [True, False, True, True, False] = [True, True, True, True, False]"
    by code_simp
  have sc: "setColumn DIALOG [True, True, True, True, False] ?fps
     = [\<lparr>index = 0, timestamp = 0, flags = [True, False, False, False]\<rparr>,
         \<lparr>index = 1, timestamp = 100, flags = [True, False, False, False]\<rparr>,
         \<lparr>index = 2, timestamp = 200, flags = [True, False, False, False]\<rparr>,
         \<lparr>index = 3, timestamp = 300, flags = [True, False, False, False]\<rparr>,
         \<lparr>index = 4, timestamp = 400, flags = [False, False, False, False]\<rparr>]"
    by code_simp
  show ?thesis
    using removeNoise_is_specified_scan [OF wf, of DIALOG 1 1] wf
    by (simp only: FPIR.simps col dn sc)
qed

text \<open>
  Claim C6. A frame whose index lies within the applicable length of either end of the
  sequence (the length being chosen by the frame's own flag) is returned by the pass
  exactly as it was; the pass itself returns normally.
\<close>

theorem removeNoise_boundary_exempt:
  assumes "wellFormed (framePoints fpir)"
    and "i < length (framePoints fpir)"
    and "minLength = (if column ty (framePoints fpir) ! i
                      then minPositiveLength else minNegativeLength)"
    and "int i < minLength \<or> int i > int (length (framePoints fpir)) - 1 - minLength"
  shows "\<exists>fpir'. FPIRPassRemoveNoise_apply ty minPositiveLength minNegativeLength fpir = Inr fpir'
           \<and> length (framePoints fpir') = length (framePoints fpir)
           \<and> framePoints fpir' ! i = framePoints fpir ! i"
proof -
  let ?fps = "framePoints fpir"
  let ?cs = "denoise minPositiveLength minNegativeLength (column ty ?fps)"
  have keep: "?cs ! i = column ty ?fps ! i"
    using denoise_boundary [of i "column ty ?fps" minPositiveLength minNegativeLength] assms
    by simp
  have n: "nat (SubtitleType_value ty) < length (flags (?fps ! i))"
    using wellFormed_nth [OF assms(1,2)] by (cases ty) simp_all
  have "setColumn ty ?cs ?fps ! i = ?fps ! i"
    using assms(2) keep n by (simp add: setColumn_nth column_nth withFlag_def)
  then show ?thesis
    using removeNoise_apply_denoise [OF assms(1), of ty minPositiveLength minNegativeLength]
    by simp
qed

theorem removeNoise_boundary_exempt_witness:
  "wellFormed
     [\<lparr>index = 0, timestamp = 0, flags = [False, False, False, False]\<rparr>,
      \<lparr>index = 1, timestamp = 100, flags = [True, False, False, False]\<rparr>,
      \<lparr>index = 2, timestamp = 200, flags = [False, False, False, False]\<rparr>] \<and>
   (\<exists>fpir'. FPIRPassRemoveNoise_apply DIALOG 2 1
       \<lparr>framePoints =
         [\<lparr>index = 0, timestamp = 0, flags = [False, False, False, False]\<rparr>,
          \<lparr>index = 1, timestamp = 100, flags = [True, False, False, False]\<rparr>,
          \<lparr>index = 2, timestamp = 200, flags = [False, False, False, False]\<rparr>]\<rparr> = Inr fpir'
      \<and> framePoints fpir' ! 1 = \<lparr>index = 1, timestamp = 100, flags = [True, False, False, False]\<rparr>)"
proof -
  let ?fps = "[\<lparr>index = 0, timestamp = 0, flags = [False, False, False, False]\<rparr>,
      \<lparr>index = 1, timestamp = 100, flags = [True, False, False, False]\<rparr>,
      \<lparr>index = 2, timestamp = 200, flags = [False, False, False, False]\<rparr>]"
  have wf: "wellFormed (framePoints \<lparr>framePoints = ?fps\<rparr>)" by code_simp
  have i: "1 < length (framePoints \<lparr>framePoints = ?fps\<rparr>)" by simp
  have m: "(2::int) = (if column DIALOG (framePoints \<lparr>framePoints = ?fps\<rparr>) ! 1 then 2 else 1)"
    by (simp add: column_def)
  have e: "int 1 < 2 \<or> int 1 > int (length (framePoints \<lparr>framePoints = ?fps\<rparr>)) - 1 - 2"
    by simp
  show ?thesis
    using removeNoise_boundary_exempt [OF wf i m e] wf by auto
qed

section \<open>The virtual end point and interval extraction\<close>

lemma wellFormed_Cons [simp]:
  "wellFormed (fp # fps) \<longleftrightarrow> length (flags fp) = 4 \<and> wellFormed fps"
  by (simp add: wellFormed_def SubtitleType_num_4)

lemma wellFormed_Nil [simp]: "wellFormed []"
  by (simp add: wellFormed_def)

lemma wellFormed_append [simp]:
  "wellFormed (xs @ ys) \<longleftrightarrow> wellFormed xs \<and> wellFormed ys"
  by (simp add: wellFormed_def)









section \<open>The gap-bridging pass computes the specified sweep\<close>

lemma bridgeScan_negative_gap:
  "maxGap < 0 \<Longrightarrow> bridgeScan ty maxGap A later = (A, later)"
  by (induction later) auto

lemma update_two:
  assumes "i < j" "j < length xs"
  shows "xs[i := a, j := b] = (take j xs)[i := a] @ b # drop (Suc j) xs"
proof -
  have "xs[i := a, j := b] = take j (xs[i := a]) @ b # drop (Suc j) (xs[i := a])"
    using assms(2) by (simp add: upd_conv_take_nth_drop)
  also have "take j (xs[i := a]) = (take j xs)[i := a]" by (rule take_update_swap)
  also have "drop (Suc j) (xs[i := a]) = drop (Suc j) xs"
    using assms(1) by (simp add: drop_update_cancel)
  finally show ?thesis .
qed

lemma scanForward_bridgeScan:
  "id' < otherId \<Longrightarrow> otherId \<le> length ivs \<Longrightarrow>
   scanForward ty maxBlank id' otherId ivs
     = (take otherId ivs)[id' := fst (bridgeScan ty maxBlank (ivs ! id') (drop otherId ivs))]
       @ snd (bridgeScan ty maxBlank (ivs ! id') (drop otherId ivs))"
proof (induction ty maxBlank id' otherId ivs rule: scanForward.induct)
  case (1 ty maxBlank id' otherId ivs)
  show ?case
  proof (cases "otherId < length ivs")
    case False
    with 1(4) have "otherId = length ivs" by simp
    then show ?thesis by (subst scanForward.simps) simp
  next
    case True
    let ?A = "ivs ! id'" and ?B = "ivs ! otherId"
    have dr: "drop otherId ivs = ?B # drop (Suc otherId) ivs"
      using True by (simp add: Cons_nth_drop_Suc)
    have tk: "take (Suc otherId) ivs = take otherId ivs @ [?B]"
      using True by (simp add: take_Suc_conv_app_nth)
    have idl: "id' < length (take otherId ivs)" using 1(3) True by simp
    have noop: "(take otherId ivs)[id' := ?A] = take otherId ivs"
      using list_update_id [of "take otherId ivs" id'] nth_take [OF 1(3), of ivs] by simp
    have skip: "scanForward ty maxBlank id' (otherId + 1) ivs
        = (take otherId ivs)[id' := fst (bridgeScan ty maxBlank ?A (drop (Suc otherId) ivs))]
          @ ?B # snd (bridgeScan ty maxBlank ?A (drop (Suc otherId) ivs))"
      if "type' ?B \<noteq> ty \<or> (\<not> Interval_dist ?A ?B > maxBlank \<and> Interval_dist ?A ?B \<le> 0)"
    proof -
      have "scanForward ty maxBlank id' (otherId + 1) ivs
        = (take (Suc otherId) ivs)[id' := fst (bridgeScan ty maxBlank ?A (drop (Suc otherId) ivs))]
          @ snd (bridgeScan ty maxBlank ?A (drop (Suc otherId) ivs))"
        using that
      proof
        assume t: "type' ?B \<noteq> ty"
        from 1(1) [OF True refl refl t] 1(3) True show ?thesis by simp
      next
        assume d: "\<not> Interval_dist ?A ?B > maxBlank \<and> Interval_dist ?A ?B \<le> 0"
        show ?thesis
        proof (cases "type' ?B \<noteq> ty")
          case True
          from 1(1) [OF \<open>otherId < length ivs\<close> refl refl True] 1(3) \<open>otherId < length ivs\<close>
          show ?thesis by simp
        next
          case False
          from 1(2) [OF \<open>otherId < length ivs\<close> refl refl False] d 1(3) \<open>otherId < length ivs\<close>
          show ?thesis by simp
        qed
      qed
      then show ?thesis using idl by (simp add: tk list_update_append1)
    qed
    show ?thesis
    proof (cases "type' ?B \<noteq> ty")
      case t: True
      then show ?thesis using skip True
        by (subst scanForward.simps) (simp add: dr Let_def)
    next
      case same: False
      show ?thesis
      proof (cases "Interval_dist ?A ?B > maxBlank")
        case far: True
        show ?thesis
        proof (cases "Interval_dist ?A ?B \<le> 0")
          case True
          with far have "maxBlank < 0" by simp
          from bridgeScan_negative_gap [OF this] show ?thesis
            using far same \<open>otherId < length ivs\<close> noop
            by (subst scanForward.simps) (simp add: Let_def)
        next
          case False
          then show ?thesis using far same \<open>otherId < length ivs\<close> idl noop
              id_take_nth_drop [OF \<open>otherId < length ivs\<close>, symmetric]
            by (subst scanForward.simps) (simp add: dr Let_def)
        qed
      next
        case near: False
        show ?thesis
        proof (cases "Interval_dist ?A ?B \<le> 0")
          case True
          then show ?thesis using skip near same \<open>otherId < length ivs\<close>
            by (subst scanForward.simps) (simp add: dr Let_def)
        next
          case False
          have "ivs[id' := ?A\<lparr>end' := midpoint ?A ?B\<rparr>, otherId := ?B\<lparr>begin' := midpoint ?A ?B\<rparr>]
                = (take otherId ivs)[id' := ?A\<lparr>end' := midpoint ?A ?B\<rparr>]
                  @ ?B\<lparr>begin' := midpoint ?A ?B\<rparr> # drop (Suc otherId) ivs"
            using 1(3) \<open>otherId < length ivs\<close> by (rule update_two)
          then show ?thesis using False near same \<open>otherId < length ivs\<close>
            by (subst scanForward.simps) (simp add: dr Let_def midpoint_def)
        qed
      qed
    qed
  qed
qed

lemma sweep_bridgeSweep:
  "id' \<le> length ivs \<Longrightarrow>
   sweep ty maxBlank id' ivs = take id' ivs @ bridgeSweep ty maxBlank (drop id' ivs)"
proof (induction ty maxBlank id' ivs rule: sweep.induct)
  case (1 ty maxBlank id' ivs)
  show ?case
  proof (cases "id' < length ivs")
    case False
    with 1(3) show ?thesis by (subst sweep.simps) simp
  next
    case True
    let ?A = "ivs ! id'"
    have dr: "drop id' ivs = ?A # drop (Suc id') ivs" using True by (simp add: Cons_nth_drop_Suc)
    have tk: "take (Suc id') ivs = take id' ivs @ [?A]" using True by (simp add: take_Suc_conv_app_nth)
    show ?thesis
    proof (cases "type' ?A \<noteq> ty")
      case other: True
      from 1(1) [OF True other] True
      have "sweep ty maxBlank (Suc id') ivs
            = take (Suc id') ivs @ bridgeSweep ty maxBlank (drop (Suc id') ivs)" by simp
      then show ?thesis using True other by (subst sweep.simps) (simp add: dr tk)
    next
      case same: False
      let ?A' = "fst (bridgeScan ty maxBlank ?A (drop (Suc id') ivs))"
      let ?L' = "snd (bridgeScan ty maxBlank ?A (drop (Suc id') ivs))"
      let ?ivs' = "scanForward ty maxBlank id' (Suc id') ivs"
      have upd: "(take id' ivs @ [?A])[id' := ?A'] = take id' ivs @ [?A']"
        using list_update_length [of "take id' ivs" ?A "[]" ?A'] True by simp
      have sc: "?ivs' = (take id' ivs @ [?A']) @ ?L'"
        using scanForward_bridgeScan [of id' "Suc id'" ivs ty maxBlank] True
        by (simp add: tk upd)
      have len: "length (take id' ivs @ [?A']) = Suc id'" using True by simp
      have tk': "take (Suc id') ?ivs' = take id' ivs @ [?A']"
        unfolding sc using len by (metis append_eq_conv_conj)
      have dr': "drop (Suc id') ?ivs' = ?L'"
        unfolding sc using len by (metis append_eq_conv_conj)
      from 1(2) [OF True same] True
      have "sweep ty maxBlank (Suc id') ?ivs'
            = take (Suc id') ?ivs' @ bridgeSweep ty maxBlank (drop (Suc id') ?ivs')"
        by (simp add: scanForward_length)
      then show ?thesis using True same
        by (subst sweep.simps) (simp add: dr tk' dr')
    qed
  qed
qed

lemma apply_bridgeGaps:
  "IIRPassFillFlashBlank_apply ty maxBlank iir
     = iir\<lparr>intervals := bridgeGaps ty maxBlank (intervals iir)\<rparr>"
  using sweep_bridgeSweep [of 0 "intervals iir" ty maxBlank]
  by (simp add: IIRPassFillFlashBlank_apply_def bridgeGaps_def IIR_sort_def)

text \<open>
  Claim C2. For every interval collection (sorted or not), channel and \<open>maxGap\<close>, the
  pass yields the specified sweep followed by the stable sort by begin: intervals are
  taken in collection order; for each interval \<open>A\<close> of the channel the later intervals
  are scanned, passing over other channels and over same-channel intervals at distance
  at most zero, stopping at the first same-channel interval farther than \<open>maxGap\<close>,
  and otherwise moving \<open>A.end\<close> and \<open>B.begin\<close> to \<open>floor((A.end + B.begin) / 2)\<close> and
  stopping. One channel's \<open>[0,100)\<close> and \<open>[150,250)\<close> with \<open>maxGap = 100\<close> become
  \<open>[0,125)\<close> and \<open>[125,250)\<close>; \<open>[0,100)\<close> and \<open>[250,350)\<close> stay as they are.
\<close>

theorem fillFlashBlank_is_specified_sweep:
  "IIRPassFillFlashBlank_apply ty maxGap iir
     = iir\<lparr>intervals := bridgeGaps ty maxGap (intervals iir)\<rparr> \<and>
   IIRPassFillFlashBlank_apply DIALOG 100 \<lparr>intervals = [\<lparr>begin' = 0, end' = 100, type' = DIALOG\<rparr>, \<lparr>begin' = 150, end' = 250, type' = DIALOG\<rparr>]\<rparr>
     = \<lparr>intervals = [\<lparr>begin' = 0, end' = 125, type' = DIALOG\<rparr>, \<lparr>begin' = 125, end' = 250, type' = DIALOG\<rparr>]\<rparr> \<and>
   IIRPassFillFlashBlank_apply DIALOG 100 \<lparr>intervals = [\<lparr>begin' = 0, end' = 100, type' = DIALOG\<rparr>, \<lparr>begin' = 250, end' = 350, type' = DIALOG\<rparr>]\<rparr>
     = \<lparr>intervals = [\<lparr>begin' = 0, end' = 100, type' = DIALOG\<rparr>, \<lparr>begin' = 250, end' = 350, type' = DIALOG\<rparr>]\<rparr>"
proof -
  have merge: "bridgeGaps DIALOG 100 [\<lparr>begin' = 0, end' = 100, type' = DIALOG\<rparr>, \<lparr>begin' = 150, end' = 250, type' = DIALOG\<rparr>]
               = [\<lparr>begin' = 0, end' = 125, type' = DIALOG\<rparr>, \<lparr>begin' = 125, end' = 250, type' = DIALOG\<rparr>]"
    by code_simp
  have noop: "bridgeGaps DIALOG 100 [\<lparr>begin' = 0, end' = 100, type' = DIALOG\<rparr>, \<lparr>begin' = 250, end' = 350, type' = DIALOG\<rparr>]
              = [\<lparr>begin' = 0, end' = 100, type' = DIALOG\<rparr>, \<lparr>begin' = 250, end' = 350, type' = DIALOG\<rparr>]"
    by code_simp
  show ?thesis by (simp only: apply_bridgeGaps IIR.simps merge noop)
qed

theorem fillFlashBlank_is_specified_sweep_witness:
  "IIRPassFillFlashBlank_apply DIALOG 100
     \<lparr>intervals = [\<lparr>begin' = 0, end' = 100, type' = DIALOG\<rparr>, \<lparr>begin' = 120, end' = 130, type' = CGSUB\<rparr>, \<lparr>begin' = 150, end' = 250, type' = DIALOG\<rparr>]\<rparr>
   = \<lparr>intervals = [\<lparr>begin' = 0, end' = 125, type' = DIALOG\<rparr>, \<lparr>begin' = 120, end' = 130, type' = CGSUB\<rparr>, \<lparr>begin' = 125, end' = 250, type' = DIALOG\<rparr>]\<rparr>"
proof -
  have "bridgeGaps DIALOG 100 [\<lparr>begin' = 0, end' = 100, type' = DIALOG\<rparr>, \<lparr>begin' = 120, end' = 130, type' = CGSUB\<rparr>, \<lparr>begin' = 150, end' = 250, type' = DIALOG\<rparr>]
        = [\<lparr>begin' = 0, end' = 125, type' = DIALOG\<rparr>, \<lparr>begin' = 120, end' = 130, type' = CGSUB\<rparr>, \<lparr>begin' = 125, end' = 250, type' = DIALOG\<rparr>]"
    by code_simp
  with fillFlashBlank_is_specified_sweep
         [of DIALOG 100 "\<lparr>intervals = [\<lparr>begin' = 0, end' = 100, type' = DIALOG\<rparr>, \<lparr>begin' = 120, end' = 130, type' = CGSUB\<rparr>, \<lparr>begin' = 150, end' = 250, type' = DIALOG\<rparr>]\<rparr>"]
  show ?thesis by simp
qed

section \<open>Running the noise-removal pass twice\<close>

lemma takeWhile_length_ge:
  "c \<le> length (takeWhile P xs) \<longleftrightarrow> c \<le> length xs \<and> (\<forall>d<c. P (xs ! d))"
proof
  assume c: "c \<le> length (takeWhile P xs)"
  have "\<forall>d<c. P (xs ! d)"
  proof (intro allI impI)
    fix d assume "d < c"
    with c have d: "d < length (takeWhile P xs)" by simp
    then have "takeWhile P xs ! d \<in> set (takeWhile P xs)" by (rule nth_mem)
    then have "P (takeWhile P xs ! d)" by (rule set_takeWhileD [THEN conjunct2])
    with d show "P (xs ! d)" by (simp add: takeWhile_nth)
  qed
  moreover have "length (takeWhile P xs) \<le> length xs" by (rule length_takeWhile_le)
  ultimately show "c \<le> length xs \<and> (\<forall>d<c. P (xs ! d))" using c by simp
next
  assume "c \<le> length xs \<and> (\<forall>d<c. P (xs ! d))"
  then show "c \<le> length (takeWhile P xs)"
    using length_takeWhile_less_P_nth [of c P xs] by blast
qed

lemma countBackward_ge:
  assumes "i < length fs"
  shows "a \<le> countBackward fs i m \<longleftrightarrow> a \<le> m \<and> a \<le> i \<and> (\<forall>d<a. fs ! (i - Suc d) = fs ! i)"
proof -
  let ?xs = "take m (rev (take i fs))"
  have len: "length ?xs = min m i" using assms by simp
  have nth: "?xs ! d = fs ! (i - Suc d)" if "d < m" "d < i" for d
    using that assms by (simp add: rev_nth)
  have "a \<le> countBackward fs i m \<longleftrightarrow> a \<le> length ?xs \<and> (\<forall>d<a. ?xs ! d = fs ! i)"
    unfolding countBackward_def by (rule takeWhile_length_ge)
  also have "\<dots> \<longleftrightarrow> a \<le> m \<and> a \<le> i \<and> (\<forall>d<a. fs ! (i - Suc d) = fs ! i)"
  proof (cases "a \<le> m \<and> a \<le> i")
    case True
    have eq: "?xs ! d = fs ! (i - Suc d)" if "d < a" for d
      using that True by (intro nth) linarith+
    have "(\<forall>d<a. ?xs ! d = fs ! i) \<longleftrightarrow> (\<forall>d<a. fs ! (i - Suc d) = fs ! i)"
      using eq by metis
    moreover have "a \<le> length ?xs" unfolding len using True by linarith
    ultimately show ?thesis using True by blast
  next
    case False
    then show ?thesis by (auto simp: len)
  qed
  finally show ?thesis .
qed

lemma countForward_ge:
  assumes "i < length fs"
  shows "b \<le> countForward fs i m \<longleftrightarrow> b \<le> m \<and> i + b < length fs \<and> (\<forall>d<b. fs ! (Suc i + d) = fs ! i)"
proof -
  let ?xs = "take m (drop (Suc i) fs)"
  have len: "length ?xs = min m (length fs - Suc i)" by simp
  have nth: "?xs ! d = fs ! (Suc i + d)" if "d < m" "Suc i + d < length fs" for d
    using that by simp
  have "b \<le> countForward fs i m \<longleftrightarrow> b \<le> length ?xs \<and> (\<forall>d<b. ?xs ! d = fs ! i)"
    unfolding countForward_def by (rule takeWhile_length_ge)
  also have "\<dots> \<longleftrightarrow> b \<le> m \<and> i + b < length fs \<and> (\<forall>d<b. fs ! (Suc i + d) = fs ! i)"
  proof (cases "b \<le> m \<and> i + b < length fs")
    case True
    have eq: "?xs ! d = fs ! (Suc i + d)" if "d < b" for d
      using that True by (intro nth) linarith+
    have "(\<forall>d<b. ?xs ! d = fs ! i) \<longleftrightarrow> (\<forall>d<b. fs ! (Suc i + d) = fs ! i)"
      using eq by metis
    moreover have "b \<le> length ?xs" unfolding len using True by linarith
    ultimately show ?thesis using True by blast
  next
    case False
    then have "\<not> b \<le> length ?xs" unfolding len using assms by linarith
    with False show ?thesis by blast
  qed
  finally show ?thesis .
qed

lemma count_sum_covered:
  assumes i: "i < length fs"
  shows "m \<le> countBackward fs i m + countForward fs i m \<longleftrightarrow> covered fs i m"
proof
  assume ge: "m \<le> countBackward fs i m + countForward fs i m"
  let ?a = "countBackward fs i m"
  let ?b = "m - ?a"
  have a: "?a \<le> m \<and> ?a \<le> i \<and> (\<forall>d<?a. fs ! (i - Suc d) = fs ! i)"
    using countBackward_ge [OF i, of ?a m] by simp
  have "?b \<le> countForward fs i m" using ge by simp
  then have b: "?b \<le> m \<and> i + ?b < length fs \<and> (\<forall>d<?b. fs ! (Suc i + d) = fs ! i)"
    using countForward_ge [OF i, of ?b m] by simp
  have "\<forall>d. i - ?a \<le> d \<and> d \<le> i + ?b \<longrightarrow> fs ! d = fs ! i"
  proof (intro allI impI)
    fix d assume d: "i - ?a \<le> d \<and> d \<le> i + ?b"
    consider "d < i" | "d = i" | "i < d" by linarith
    then show "fs ! d = fs ! i"
    proof cases
      case 1
      then have lt: "i - Suc d < ?a" and eq: "i - Suc (i - Suc d) = d" using d a by linarith+
      from a lt have "fs ! (i - Suc (i - Suc d)) = fs ! i" by blast
      then show ?thesis by (simp only: eq)
    next
      case 2
      then show ?thesis by simp
    next
      case 3
      then have lt: "d - Suc i < ?b" and eq: "Suc i + (d - Suc i) = d" using d by linarith+
      from b lt have "fs ! (Suc i + (d - Suc i)) = fs ! i" by blast
      then show ?thesis by (simp only: eq)
    qed
  qed
  moreover have "?a + ?b = m" using a by linarith
  ultimately show "covered fs i m" unfolding covered_def using a b by blast
next
  assume "covered fs i m"
  then obtain a b where ab: "a + b = m" "a \<le> i" "i + b < length fs"
    and u: "\<forall>d. i - a \<le> d \<and> d \<le> i + b \<longrightarrow> fs ! d = fs ! i" unfolding covered_def by blast
  have "\<forall>d<a. fs ! (i - Suc d) = fs ! i"
  proof (intro allI impI)
    fix d assume "d < a"
    then have "i - a \<le> i - Suc d \<and> i - Suc d \<le> i + b" using ab by linarith
    with u show "fs ! (i - Suc d) = fs ! i" by blast
  qed
  moreover have "a \<le> m" using ab by linarith
  ultimately have 1: "a \<le> countBackward fs i m" using countBackward_ge [OF i, of a m] ab by blast
  have "\<forall>d<b. fs ! (Suc i + d) = fs ! i"
  proof (intro allI impI)
    fix d assume "d < b"
    then have "i - a \<le> Suc i + d \<and> Suc i + d \<le> i + b" by linarith
    with u show "fs ! (Suc i + d) = fs ! i" by blast
  qed
  moreover have "b \<le> m" using ab by linarith
  ultimately have 2: "b \<le> countForward fs i m" using countForward_ge [OF i, of b m] ab by blast
  from 1 2 ab show "m \<le> countBackward fs i m + countForward fs i m" by linarith
qed

lemma denoiseAt_flipsAt:
  assumes "i < length fs"
  shows "denoiseAt p q i fs = (if flipsAt p q fs i then fs[i := \<not> fs ! i] else fs)"
proof -
  define m where "m = (if fs ! i then p else q)"
  show ?thesis
  proof (cases "0 < m \<and> m \<le> int i \<and> int i + m < int (length fs)")
    case False
    then have nf: "\<not> flipsAt p q fs i"
      unfolding flipsAt_def Let_def m_def [symmetric] by blast
    have "denoiseAt p q i fs = fs"
    proof (cases "int i - m < 0 \<or> int i + m > int (length fs) - 1")
      case True
      then show ?thesis by (simp add: denoiseAt_def Let_def m_def [symmetric])
    next
      case inw: False
      with False have "m \<le> 0" by linarith
      then show ?thesis by (simp add: denoiseAt_def Let_def m_def [symmetric])
    qed
    with nf show ?thesis by simp
  next
    case True
    then have w: "\<not> (int i - m < 0 \<or> int i + m > int (length fs) - 1)" by linarith
    have "int (countBackward fs i (nat m) + countForward fs i (nat m)) < m
          \<longleftrightarrow> \<not> nat m \<le> countBackward fs i (nat m) + countForward fs i (nat m)"
      using True by linarith
    also have "\<dots> \<longleftrightarrow> \<not> covered fs i (nat m)" by (simp only: count_sum_covered [OF assms])
    also have "\<dots> \<longleftrightarrow> flipsAt p q fs i"
      unfolding flipsAt_def Let_def m_def [symmetric] using True by blast
    finally show ?thesis using w by (simp add: denoiseAt_def Let_def m_def [symmetric])
  qed
qed

lemma flip_keeps_others:
  assumes k: "k < length fs" and fk: "flipsAt p q fs k" and ik: "i \<noteq> k"
    and ni: "\<not> flipsAt p q fs i"
  shows "\<not> flipsAt p q (fs[k := \<not> fs ! k]) i"
proof
  let ?fs' = "fs[k := \<not> fs ! k]"
  assume f': "flipsAt p q ?fs' i"
  define m where "m = (if fs ! i then p else q)"
  have same: "?fs' ! i = fs ! i" using ik by simp
  have len': "length ?fs' = length fs" by simp
  from f' have "0 < m \<and> m \<le> int i \<and> int i + m < int (length fs) \<and> \<not> covered ?fs' i (nat m)"
    unfolding flipsAt_def Let_def same len' m_def [symmetric] .
  then have w: "0 < m" "m \<le> int i" "int i + m < int (length fs)"
    and nc': "\<not> covered ?fs' i (nat m)" by blast+
  from ni w have c: "covered fs i (nat m)"
    unfolding flipsAt_def Let_def m_def [symmetric] by blast
  then obtain a b where ab: "a + b = nat m" "a \<le> i" "i + b < length fs"
    and u: "\<forall>d. i - a \<le> d \<and> d \<le> i + b \<longrightarrow> fs ! d = fs ! i" unfolding covered_def by blast
  show False
  proof (cases "i - a \<le> k \<and> k \<le> i + b")
    case True
    with u have kk: "fs ! k = fs ! i" by blast
    let ?a = "k - (i - a)" and ?b = "i + b - k"
    have "?a + ?b = nat m" "?a \<le> k" "k + ?b < length fs" using True ab by linarith+
    moreover have "\<forall>d. k - ?a \<le> d \<and> d \<le> k + ?b \<longrightarrow> fs ! d = fs ! k"
    proof (intro allI impI)
      fix d assume "k - ?a \<le> d \<and> d \<le> k + ?b"
      then have "i - a \<le> d \<and> d \<le> i + b" using True ab by linarith
      with u have "fs ! d = fs ! i" by blast
      then show "fs ! d = fs ! k" by (simp only: kk)
    qed
    ultimately have "covered fs k (nat m)" unfolding covered_def by blast
    moreover from fk have "\<not> covered fs k (nat m)"
      unfolding flipsAt_def Let_def kk m_def [symmetric] by blast
    ultimately show False by blast
  next
    case False
    have "\<forall>d. i - a \<le> d \<and> d \<le> i + b \<longrightarrow> ?fs' ! d = ?fs' ! i"
    proof (intro allI impI)
      fix d assume d: "i - a \<le> d \<and> d \<le> i + b"
      with False have "d \<noteq> k" by blast
      then have e: "?fs' ! d = fs ! d" by simp
      from u d have "fs ! d = fs ! i" by blast
      then show "?fs' ! d = ?fs' ! i" by (simp only: e same)
    qed
    moreover have "i + b < length ?fs'" using ab by simp
    ultimately have "covered ?fs' i (nat m)" unfolding covered_def using ab(1,2) by blast
    with nc' show False by blast
  qed
qed

lemma coveredI:
  "a + b = m \<Longrightarrow> a \<le> i \<Longrightarrow> i + b < length fs \<Longrightarrow>
   (\<And>d. i - a \<le> d \<Longrightarrow> d \<le> i + b \<Longrightarrow> fs ! d = fs ! i) \<Longrightarrow> covered fs i m"
  unfolding covered_def by blast

lemma flip_settles_self:
  assumes par: "p \<le> 0 \<or> q \<le> 0 \<or> p + q \<le> 3"
    and k: "k < length fs" and fk: "flipsAt p q fs k"
  shows "\<not> flipsAt p q (fs[k := \<not> fs ! k]) k"
proof
  let ?fs' = "fs[k := \<not> fs ! k]"
  assume f': "flipsAt p q ?fs' k"
  define m where "m = (if fs ! k then p else q)"
  define m' where "m' = (if fs ! k then q else p)"
  have new: "?fs' ! k = (\<not> fs ! k)" using k by simp
  have len': "length ?fs' = length fs" by simp
  have other: "?fs' ! d = fs ! d" if "d \<noteq> k" for d using that by simp
  have mm: "(if ?fs' ! k then p else q) = m'" unfolding new m'_def by simp
  from fk have "0 < m \<and> m \<le> int k \<and> int k + m < int (length fs) \<and> \<not> covered fs k (nat m)"
    unfolding flipsAt_def Let_def m_def [symmetric] .
  then have w: "0 < m" "m \<le> int k" "int k + m < int (length fs)"
    and nc: "\<not> covered fs k (nat m)" by blast+
  from f' have "0 < m' \<and> m' \<le> int k \<and> int k + m' < int (length fs) \<and> \<not> covered ?fs' k (nat m')"
    unfolding flipsAt_def Let_def mm len' .
  then have w': "0 < m'" "m' \<le> int k" "int k + m' < int (length fs)"
    and nc': "\<not> covered ?fs' k (nat m')" by blast+
  have "m + m' = p + q" unfolding m_def m'_def by simp
  with par w(1) w'(1) have sum: "m + m' \<le> 3"
    unfolding m_def m'_def by (cases "fs ! k") auto
  from w have k1: "1 \<le> k" "Suc k < length fs" by linarith+
  have prev: "k - 1 \<noteq> k" "Suc k \<noteq> k" using k1 by simp_all
  show False
  proof (cases "m = 1")
    case True
    have p1: "fs ! (k - 1) \<noteq> fs ! k"
    proof
      assume e: "fs ! (k - 1) = fs ! k"
      have "covered fs k 1"
      proof (rule coveredI [of 1 0])
        fix d assume "k - 1 \<le> d" "d \<le> k + 0"
        then have "d = k - 1 \<or> d = k" by linarith
        with e show "fs ! d = fs ! k" by auto
      qed (use k k1 in simp_all)
      with nc True show False by simp
    qed
    have n1: "fs ! Suc k \<noteq> fs ! k"
    proof
      assume e: "fs ! Suc k = fs ! k"
      have "covered fs k 1"
      proof (rule coveredI [of 0 1])
        fix d assume "k - 0 \<le> d" "d \<le> k + 1"
        then have "d = Suc k \<or> d = k" by linarith
        with e show "fs ! d = fs ! k" by auto
      qed (use k k1 in simp_all)
      with nc True show False by simp
    qed
    from p1 n1 have eqs: "?fs' ! (k - 1) = ?fs' ! k" "?fs' ! Suc k = ?fs' ! k"
      using other [OF prev(1)] other [OF prev(2)] new by auto
    from True sum w'(1) have "m' = 1 \<or> m' = 2" by linarith
    then have "covered ?fs' k (nat m')"
    proof
      assume "m' = 1"
      have "covered ?fs' k 1"
      proof (rule coveredI [of 1 0])
        fix d assume "k - 1 \<le> d" "d \<le> k + 0"
        then have "d = k - 1 \<or> d = k" by linarith
        with eqs show "?fs' ! d = ?fs' ! k" by auto
      qed (use k k1 in simp_all)
      with \<open>m' = 1\<close> show ?thesis by simp
    next
      assume "m' = 2"
      have "covered ?fs' k 2"
      proof (rule coveredI [of 1 1])
        fix d assume "k - 1 \<le> d" "d \<le> k + 1"
        then have "d = k - 1 \<or> d = k \<or> d = Suc k" by linarith
        with eqs show "?fs' ! d = ?fs' ! k" by auto
      qed (use k k1 in simp_all)
      with \<open>m' = 2\<close> show ?thesis by simp
    qed
    with nc' show False by blast
  next
    case False
    with sum w(1) w'(1) have m2: "m = 2" and m1: "m' = 1" by linarith+
    have "fs ! (k - 1) \<noteq> fs ! k \<or> fs ! Suc k \<noteq> fs ! k"
    proof (rule ccontr)
      assume "\<not> (fs ! (k - 1) \<noteq> fs ! k \<or> fs ! Suc k \<noteq> fs ! k)"
      then have e: "fs ! (k - 1) = fs ! k" "fs ! Suc k = fs ! k" by simp_all
      have "covered fs k 2"
      proof (rule coveredI [of 1 1])
        fix d assume "k - 1 \<le> d" "d \<le> k + 1"
        then have "d = k - 1 \<or> d = k \<or> d = Suc k" by linarith
        with e show "fs ! d = fs ! k" by auto
      qed (use k k1 in simp_all)
      with nc m2 show False by simp
    qed
    then have "covered ?fs' k 1"
    proof
      assume "fs ! (k - 1) \<noteq> fs ! k"
      then have e: "?fs' ! (k - 1) = ?fs' ! k" using other [OF prev(1)] new by auto
      show ?thesis
      proof (rule coveredI [of 1 0])
        fix d assume "k - 1 \<le> d" "d \<le> k + 0"
        then have "d = k - 1 \<or> d = k" by linarith
        with e show "?fs' ! d = ?fs' ! k" by auto
      qed (use k k1 in simp_all)
    next
      assume "fs ! Suc k \<noteq> fs ! k"
      then have e: "?fs' ! Suc k = ?fs' ! k" using other [OF prev(2)] new by auto
      show ?thesis
      proof (rule coveredI [of 0 1])
        fix d assume "k - 0 \<le> d" "d \<le> k + 1"
        then have "d = Suc k \<or> d = k" by linarith
        with e show "?fs' ! d = ?fs' ! k" by auto
      qed (use k k1 in simp_all)
    qed
    with nc' m1 show False by simp
  qed
qed

lemma settledUpTo_step:
  assumes par: "p \<le> 0 \<or> q \<le> 0 \<or> p + q \<le> 3"
    and k: "k < length fs" and st: "settledUpTo p q k fs"
  shows "settledUpTo p q (Suc k) (denoiseAt p q k fs)"
proof (cases "flipsAt p q fs k")
  case False
  then have same: "denoiseAt p q k fs = fs" by (simp add: denoiseAt_flipsAt [OF k])
  show ?thesis unfolding same settledUpTo_def
  proof (intro allI impI)
    fix i assume "i < Suc k"
    then have "i < k \<or> i = k" by linarith
    with st False show "\<not> flipsAt p q fs i" unfolding settledUpTo_def by blast
  qed
next
  case True
  then have flip: "denoiseAt p q k fs = fs[k := \<not> fs ! k]" by (simp add: denoiseAt_flipsAt [OF k])
  show ?thesis unfolding flip settledUpTo_def
  proof (intro allI impI)
    fix i assume "i < Suc k"
    then consider "i < k" | "i = k" by linarith
    then show "\<not> flipsAt p q (fs[k := \<not> fs ! k]) i"
    proof cases
      case 1
      with st have "\<not> flipsAt p q fs i" unfolding settledUpTo_def by blast
      moreover from 1 have "i \<noteq> k" by simp
      ultimately show ?thesis using flip_keeps_others [OF k True] by blast
    next
      case 2
      with flip_settles_self [OF par k True] show ?thesis by simp
    qed
  qed
qed

lemma settledUpTo_fold:
  "p \<le> 0 \<or> q \<le> 0 \<or> p + q \<le> 3 \<Longrightarrow> k \<le> length fs \<Longrightarrow>
   settledUpTo p q k (fold (denoiseAt p q) [0..<k] fs)"
proof (induction k)
  case 0
  then show ?case by (simp add: settledUpTo_def)
next
  case (Suc k)
  then have ih: "settledUpTo p q k (fold (denoiseAt p q) [0..<k] fs)" by simp
  have kl: "k < length (fold (denoiseAt p q) [0..<k] fs)" using Suc(3) by simp
  show ?case using settledUpTo_step [OF Suc(2) kl ih] by simp
qed

lemma settled_fold_id:
  "settledUpTo p q (length fs) fs \<Longrightarrow> \<forall>j\<in>set js. j < length fs \<Longrightarrow>
   fold (denoiseAt p q) js fs = fs"
proof (induction js)
  case Nil
  then show ?case by simp
next
  case (Cons j js)
  then have j: "j < length fs" by simp
  with Cons.prems(1) have "\<not> flipsAt p q fs j" unfolding settledUpTo_def by blast
  then have "denoiseAt p q j fs = fs" by (simp add: denoiseAt_flipsAt [OF j])
  with Cons show ?case by simp
qed

lemma denoise_idempotent:
  assumes "p \<le> 0 \<or> q \<le> 0 \<or> p + q \<le> 3"
  shows "denoise p q (denoise p q fs) = denoise p q fs"
proof -
  have "settledUpTo p q (length fs) (denoise p q fs)"
    using settledUpTo_fold [OF assms, of "length fs" fs] by (simp add: denoise_def)
  then have "settledUpTo p q (length (denoise p q fs)) (denoise p q fs)" by simp
  from settled_fold_id [OF this, of "[0..<length (denoise p q fs)]"]
  show ?thesis by (simp add: denoise_def)
qed

text \<open>
  Claim C3, as stated, fails: with both lengths 2 the pass turns the flags
  \<open>[F,T,F,F,T]\<close> into \<open>[F,T,T,F,T]\<close>, and a second run with the same parameters turns
  them back into \<open>[F,T,F,F,T]\<close>. The same happens with lengths 1 and 3 (on
  \<open>[T,T,F,F,F,T,F]\<close>) and with lengths 3 and 1 (on \<open>[F,F,T,F,T,F,F]\<close>).
\<close>

theorem removeNoise_second_run_flips:
  "FPIRPassRemoveNoise_apply DIALOG 2 2
     \<lparr>framePoints =
       [\<lparr>index = 0, timestamp = 0, flags = [False, False, False, False]\<rparr>,
       \<lparr>index = 1, timestamp = 100, flags = [True, False, False, False]\<rparr>,
       \<lparr>index = 2, timestamp = 200, flags = [False, False, False, False]\<rparr>,
       \<lparr>index = 3, timestamp = 300, flags = [False, False, False, False]\<rparr>,
       \<lparr>index = 4, timestamp = 400, flags = [True, False, False, False]\<rparr>]\<rparr>
   = Inr \<lparr>framePoints =
       [\<lparr>index = 0, timestamp = 0, flags = [False, False, False, False]\<rparr>,
       \<lparr>index = 1, timestamp = 100, flags = [True, False, False, False]\<rparr>,
       \<lparr>index = 2, timestamp = 200, flags = [True, False, False, False]\<rparr>,
       \<lparr>index = 3, timestamp = 300, flags = [False, False, False, False]\<rparr>,
       \<lparr>index = 4, timestamp = 400, flags = [True, False, False, False]\<rparr>]\<rparr> \<and>
   FPIRPassRemoveNoise_apply DIALOG 2 2
     \<lparr>framePoints =
       [\<lparr>index = 0, timestamp = 0, flags = [False, False, False, False]\<rparr>,
       \<lparr>index = 1, timestamp = 100, flags = [True, False, False, False]\<rparr>,
       \<lparr>index = 2, timestamp = 200, flags = [True, False, False, False]\<rparr>,
       \<lparr>index = 3, timestamp = 300, flags = [False, False, False, False]\<rparr>,
       \<lparr>index = 4, timestamp = 400, flags = [True, False, False, False]\<rparr>]\<rparr>
   = Inr \<lparr>framePoints =
       [\<lparr>index = 0, timestamp = 0, flags = [False, False, False, False]\<rparr>,
       \<lparr>index = 1, timestamp = 100, flags = [True, False, False, False]\<rparr>,
       \<lparr>index = 2, timestamp = 200, flags = [False, False, False, False]\<rparr>,
       \<lparr>index = 3, timestamp = 300, flags = [False, False, False, False]\<rparr>,
       \<lparr>index = 4, timestamp = 400, flags = [True, False, False, False]\<rparr>]\<rparr> \<and>
   FPIRPassRemoveNoise_apply DIALOG 2 2
     \<lparr>framePoints =
       [\<lparr>index = 0, timestamp = 0, flags = [False, False, False, False]\<rparr>,
       \<lparr>index = 1, timestamp = 100, flags = [True, False, False, False]\<rparr>,
       \<lparr>index = 2, timestamp = 200, flags = [True, False, False, False]\<rparr>,
       \<lparr>index = 3, timestamp = 300, flags = [False, False, False, False]\<rparr>,
       \<lparr>index = 4, timestamp = 400, flags = [True, False, False, False]\<rparr>]\<rparr>
   \<noteq> Inr \<lparr>framePoints =
       [\<lparr>index = 0, timestamp = 0, flags = [False, False, False, False]\<rparr>,
       \<lparr>index = 1, timestamp = 100, flags = [True, False, False, False]\<rparr>,
       \<lparr>index = 2, timestamp = 200, flags = [True, False, False, False]\<rparr>,
       \<lparr>index = 3, timestamp = 300, flags = [False, False, False, False]\<rparr>,
       \<lparr>index = 4, timestamp = 400, flags = [True, False, False, False]\<rparr>]\<rparr> \<and>
   FPIRPassRemoveNoise_apply DIALOG 1 3
     \<lparr>framePoints =
       [\<lparr>index = 0, timestamp = 0, flags = [True, False, False, False]\<rparr>,
       \<lparr>index = 1, timestamp = 100, flags = [True, False, False, False]\<rparr>,
       \<lparr>index = 2, timestamp = 200, flags = [False, False, False, False]\<rparr>,
       \<lparr>index = 3, timestamp = 300, flags = [False, False, False, False]\<rparr>,
       \<lparr>index = 4, timestamp = 400, flags = [False, False, False, False]\<rparr>,
       \<lparr>index = 5, timestamp = 500, flags = [True, False, False, False]\<rparr>,
       \<lparr>index = 6, timestamp = 600, flags = [False, False, False, False]\<rparr>]\<rparr>
   = Inr \<lparr>framePoints =
       [\<lparr>index = 0, timestamp = 0, flags = [True, False, False, False]\<rparr>,
       \<lparr>index = 1, timestamp = 100, flags = [True, False, False, False]\<rparr>,
       \<lparr>index = 2, timestamp = 200, flags = [False, False, False, False]\<rparr>,
       \<lparr>index = 3, timestamp = 300, flags = [True, False, False, False]\<rparr>,
       \<lparr>index = 4, timestamp = 400, flags = [False, False, False, False]\<rparr>,
       \<lparr>index = 5, timestamp = 500, flags = [False, False, False, False]\<rparr>,
       \<lparr>index = 6, timestamp = 600, flags = [False, False, False, False]\<rparr>]\<rparr> \<and>
   FPIRPassRemoveNoise_apply DIALOG 1 3
     \<lparr>framePoints =
       [\<lparr>index = 0, timestamp = 0, flags = [True, False, False, False]\<rparr>,
       \<lparr>index = 1, timestamp = 100, flags = [True, False, False, False]\<rparr>,
       \<lparr>index = 2, timestamp = 200, flags = [False, False, False, False]\<rparr>,
       \<lparr>index = 3, timestamp = 300, flags = [True, False, False, False]\<rparr>,
       \<lparr>index = 4, timestamp = 400, flags = [False, False, False, False]\<rparr>,
       \<lparr>index = 5, timestamp = 500, flags = [False, False, False, False]\<rparr>,
       \<lparr>index = 6, timestamp = 600, flags = [False, False, False, False]\<rparr>]\<rparr>
   = Inr \<lparr>framePoints =
       [\<lparr>index = 0, timestamp = 0, flags = [True, False, False, False]\<rparr>,
       \<lparr>index = 1, timestamp = 100, flags = [True, False, False, False]\<rparr>,
       \<lparr>index = 2, timestamp = 200, flags = [False, False, False, False]\<rparr>,
       \<lparr>index = 3, timestamp = 300, flags = [False, False, False, False]\<rparr>,
       \<lparr>index = 4, timestamp = 400, flags = [False, False, False, False]\<rparr>,
       \<lparr>index = 5, timestamp = 500, flags = [False, False, False, False]\<rparr>,
       \<lparr>index = 6, timestamp = 600, flags = [False, False, False, False]\<rparr>]\<rparr> \<and>
   FPIRPassRemoveNoise_apply DIALOG 3 1
     \<lparr>framePoints =
       [\<lparr>index = 0, timestamp = 0, flags = [False, False, False, False]\<rparr>,
       \<lparr>index = 1, timestamp = 100, flags = [False, False, False, False]\<rparr>,
       \<lparr>index = 2, timestamp = 200, flags = [True, False, False, False]\<rparr>,
       \<lparr>index = 3, timestamp = 300, flags = [False, False, False, False]\<rparr>,
       \<lparr>index = 4, timestamp = 400, flags = [True, False, False, False]\<rparr>,
       \<lparr>index = 5, timestamp = 500, flags = [False, False, False, False]\<rparr>,
       \<lparr>index = 6, timestamp = 600, flags = [False, False, False, False]\<rparr>]\<rparr>
   = Inr \<lparr>framePoints =
       [\<lparr>index = 0, timestamp = 0, flags = [False, False, False, False]\<rparr>,
       \<lparr>index = 1, timestamp = 100, flags = [False, False, False, False]\<rparr>,
       \<lparr>index = 2, timestamp = 200, flags = [True, False, False, False]\<rparr>,
       \<lparr>index = 3, timestamp = 300, flags = [True, False, False, False]\<rparr>,
       \<lparr>index = 4, timestamp = 400, flags = [True, False, False, False]\<rparr>,
       \<lparr>index = 5, timestamp = 500, flags = [False, False, False, False]\<rparr>,
       \<lparr>index = 6, timestamp = 600, flags = [False, False, False, False]\<rparr>]\<rparr> \<and>
   FPIRPassRemoveNoise_apply DIALOG 3 1
     \<lparr>framePoints =
       [\<lparr>index = 0, timestamp = 0, flags = [False, False, False, False]\<rparr>,
       \<lparr>index = 1, timestamp = 100, flags = [False, False, False, False]\<rparr>,
       \<lparr>index = 2, timestamp = 200, flags = [True, False, False, False]\<rparr>,
       \<lparr>index = 3, timestamp = 300, flags = [True, False, False, False]\<rparr>,
       \<lparr>index = 4, timestamp = 400, flags = [True, False, False, False]\<rparr>,
       \<lparr>index = 5, timestamp = 500, flags = [False, False, False, False]\<rparr>,
       \<lparr>index = 6, timestamp = 600, flags = [False, False, False, False]\<rparr>]\<rparr>
   = Inr \<lparr>framePoints =
       [\<lparr>index = 0, timestamp = 0, flags = [False, False, False, False]\<rparr>,
       \<lparr>index = 1, timestamp = 100, flags = [False, False, False, False]\<rparr>,
       \<lparr>index = 2, timestamp = 200, flags = [True, False, False, False]\<rparr>,
       \<lparr>index = 3, timestamp = 300, flags = [False, False, False, False]\<rparr>,
       \<lparr>index = 4, timestamp = 400, flags = [True, False, False, False]\<rparr>,
       \<lparr>index = 5, timestamp = 500, flags = [False, False, False, False]\<rparr>,
       \<lparr>index = 6, timestamp = 600, flags = [False, False, False, False]\<rparr>]\<rparr>"
  by code_simp

text \<open>
  Claim C3, amended. Running the pass a second time with the same parameters on the
  output of the first run returns that output unchanged whenever \<open>minPositiveLength\<close>
  is at most 0, or \<open>minNegativeLength\<close> is at most 0, or the two lengths sum to at most
  3 (for positive lengths: 1 and 1, 1 and 2, 2 and 1).
\<close>

theorem removeNoise_idempotent_short_lengths:
  assumes wf: "wellFormed (framePoints fpir)"
    and par: "minPositiveLength \<le> 0 \<or> minNegativeLength \<le> 0
              \<or> minPositiveLength + minNegativeLength \<le> 3"
  shows "\<exists>fpir'. FPIRPassRemoveNoise_apply ty minPositiveLength minNegativeLength fpir = Inr fpir'
           \<and> FPIRPassRemoveNoise_apply ty minPositiveLength minNegativeLength fpir' = Inr fpir'"
proof -
  let ?fps = "framePoints fpir"
  let ?cs = "denoise minPositiveLength minNegativeLength (column ty ?fps)"
  let ?fpir' = "fpir\<lparr>framePoints := setColumn ty ?cs ?fps\<rparr>"
  have first: "FPIRPassRemoveNoise_apply ty minPositiveLength minNegativeLength fpir = Inr ?fpir'"
    by (rule removeNoise_apply_denoise [OF wf])
  have wf': "wellFormed (framePoints ?fpir')" using setColumn_wellFormed [OF wf] by simp
  have col: "column ty (framePoints ?fpir') = ?cs" using setColumn_column [OF wf, of ?cs ty] by simp
  have "FPIRPassRemoveNoise_apply ty minPositiveLength minNegativeLength ?fpir'
        = Inr (?fpir'\<lparr>framePoints := setColumn ty
                 (denoise minPositiveLength minNegativeLength (column ty (framePoints ?fpir')))
                 (framePoints ?fpir')\<rparr>)"
    by (rule removeNoise_apply_denoise [OF wf'])
  also have "denoise minPositiveLength minNegativeLength (column ty (framePoints ?fpir'))
             = column ty (framePoints ?fpir')"
    unfolding col by (rule denoise_idempotent [OF par])
  also have "setColumn ty (column ty (framePoints ?fpir')) (framePoints ?fpir') = framePoints ?fpir'"
    by (rule column_setColumn_id [OF wf'])
  finally have "FPIRPassRemoveNoise_apply ty minPositiveLength minNegativeLength ?fpir' = Inr ?fpir'"
    by simp
  with first show ?thesis by blast
qed

theorem removeNoise_idempotent_short_lengths_witness:
  "wellFormed
     [\<lparr>index = 0, timestamp = 0, flags = [False, False, False, False]\<rparr>,
       \<lparr>index = 1, timestamp = 100, flags = [False, False, False, False]\<rparr>,
       \<lparr>index = 2, timestamp = 200, flags = [False, False, True, False]\<rparr>,
       \<lparr>index = 3, timestamp = 300, flags = [False, False, False, False]\<rparr>,
       \<lparr>index = 4, timestamp = 400, flags = [False, False, False, False]\<rparr>] \<and>
   FPIRPassRemoveNoise_apply WHITESCREEN 2 0
     \<lparr>framePoints =
       [\<lparr>index = 0, timestamp = 0, flags = [False, False, False, False]\<rparr>,
       \<lparr>index = 1, timestamp = 100, flags = [False, False, False, False]\<rparr>,
       \<lparr>index = 2, timestamp = 200, flags = [False, False, True, False]\<rparr>,
       \<lparr>index = 3, timestamp = 300, flags = [False, False, False, False]\<rparr>,
       \<lparr>index = 4, timestamp = 400, flags = [False, False, False, False]\<rparr>]\<rparr>
   = Inr \<lparr>framePoints =
       [\<lparr>index = 0, timestamp = 0, flags = [False, False, False, False]\<rparr>,
       \<lparr>index = 1, timestamp = 100, flags = [False, False, False, False]\<rparr>,
       \<lparr>index = 2, timestamp = 200, flags = [False, False, False, False]\<rparr>,
       \<lparr>index = 3, timestamp = 300, flags = [False, False, False, False]\<rparr>,
       \<lparr>index = 4, timestamp = 400, flags = [False, False, False, False]\<rparr>]\<rparr> \<and>
   FPIRPassRemoveNoise_apply WHITESCREEN 2 0
     \<lparr>framePoints =
       [\<lparr>index = 0, timestamp = 0, flags = [False, False, False, False]\<rparr>,
       \<lparr>index = 1, timestamp = 100, flags = [False, False, False, False]\<rparr>,
       \<lparr>index = 2, timestamp = 200, flags = [False, False, False, False]\<rparr>,
       \<lparr>index = 3, timestamp = 300, flags = [False, False, False, False]\<rparr>,
       \<lparr>index = 4, timestamp = 400, flags = [False, False, False, False]\<rparr>]\<rparr>
   = Inr \<lparr>framePoints =
       [\<lparr>index = 0, timestamp = 0, flags = [False, False, False, False]\<rparr>,
       \<lparr>index = 1, timestamp = 100, flags = [False, False, False, False]\<rparr>,
       \<lparr>index = 2, timestamp = 200, flags = [False, False, False, False]\<rparr>,
       \<lparr>index = 3, timestamp = 300, flags = [False, False, False, False]\<rparr>,
       \<lparr>index = 4, timestamp = 400, flags = [False, False, False, False]\<rparr>]\<rparr>"
proof -
  have wf: "wellFormed (framePoints \<lparr>framePoints =
     [\<lparr>index = 0, timestamp = 0, flags = [False, False, False, False]\<rparr>,
       \<lparr>index = 1, timestamp = 100, flags = [False, False, False, False]\<rparr>,
       \<lparr>index = 2, timestamp = 200, flags = [False, False, True, False]\<rparr>,
       \<lparr>index = 3, timestamp = 300, flags = [False, False, False, False]\<rparr>,
       \<lparr>index = 4, timestamp = 400, flags = [False, False, False, False]\<rparr>]\<rparr>)"
    by code_simp
  have first: "FPIRPassRemoveNoise_apply WHITESCREEN 2 0 \<lparr>framePoints =
     [\<lparr>index = 0, timestamp = 0, flags = [False, False, False, False]\<rparr>,
       \<lparr>index = 1, timestamp = 100, flags = [False, False, False, False]\<rparr>,
       \<lparr>index = 2, timestamp = 200, flags = [False, False, True, False]\<rparr>,
       \<lparr>index = 3, timestamp = 300, flags = [False, False, False, False]\<rparr>,
       \<lparr>index = 4, timestamp = 400, flags = [False, False, False, False]\<rparr>]\<rparr>
     = Inr \<lparr>framePoints =
     [\<lparr>index = 0, timestamp = 0, flags = [False, False, False, False]\<rparr>,
       \<lparr>index = 1, timestamp = 100, flags = [False, False, False, False]\<rparr>,
       \<lparr>index = 2, timestamp = 200, flags = [False, False, False, False]\<rparr>,
       \<lparr>index = 3, timestamp = 300, flags = [False, False, False, False]\<rparr>,
       \<lparr>index = 4, timestamp = 400, flags = [False, False, False, False]\<rparr>]\<rparr>"
    by code_simp
  have par: "(2::int) \<le> 0 \<or> (0::int) \<le> 0 \<or> (2::int) + 0 \<le> 3" by simp
  from removeNoise_idempotent_short_lengths [OF wf par, of WHITESCREEN]
  show ?thesis using wf first unfolding first by auto
qed

section \<open>Intervals begin no later than they end\<close>



lemma midpoint_less:
  "end' A < begin' B \<Longrightarrow> midpoint A B < begin' B"
proof -
  assume "end' A < begin' B"
  then have "(end' A + begin' B) / 2 < begin' B" by simp
  moreover have "real_of_int \<lfloor>(end' A + begin' B) / 2\<rfloor> \<le> (end' A + begin' B) / 2"
    by (rule of_int_floor_le)
  ultimately show ?thesis unfolding midpoint_def by linarith
qed

lemma midpoint_ge_end:
  assumes "end' A < begin' B" "end' A \<in> \<int>"
  shows "end' A \<le> midpoint A B"
proof -
  from assms(2) obtain z where z: "end' A = real_of_int z" by (auto elim: Ints_cases)
  have "real_of_int z \<le> (end' A + begin' B) / 2" using assms(1) z by simp
  then have "z \<le> \<lfloor>(end' A + begin' B) / 2\<rfloor>" by (simp only: le_floor_iff)
  then show ?thesis unfolding midpoint_def z by simp
qed

lemma midpoint_ge_begin:
  assumes "end' A < begin' B" "begin' A \<le> end' A" "endsWholeOrLong A"
  shows "begin' A \<le> midpoint A B"
proof (cases "end' A \<in> \<int>")
  case True
  from midpoint_ge_end [OF assms(1) True] assms(2) show ?thesis by simp
next
  case False
  with assms(3) have long: "begin' A + 1 \<le> end' A" by (simp add: endsWholeOrLong_def)
  have "(end' A + begin' B) / 2 - 1 < real_of_int \<lfloor>(end' A + begin' B) / 2\<rfloor>" by linarith
  moreover have "end' A \<le> (end' A + begin' B) / 2" using assms(1) by simp
  ultimately show ?thesis unfolding midpoint_def using long by linarith
qed


















section \<open>Gap bridging on one channel\<close>

lemma looseChain_nth:
  "looseChain c \<Longrightarrow> i < j \<Longrightarrow> j < length c \<Longrightarrow>
   begin' (c ! i) \<le> end' (c ! i) \<and> end' (c ! i) < begin' (c ! j)"
proof (induction c arbitrary: i j)
  case Nil
  then show ?case by simp
next
  case (Cons x xs)
  show ?case
  proof (cases i)
    case 0
    with Cons.prems obtain j' where "j = Suc j'" "j' < length xs" by (cases j) auto
    with Cons.prems(1) 0 show ?thesis by auto
  next
    case (Suc i')
    with Cons.prems obtain j' where "j = Suc j'" "j' < length xs" "i' < j'" by (cases j) auto
    with Cons.IH [of i' j'] Cons.prems(1) Suc show ?thesis by simp
  qed
qed

lemma touchChain_nth:
  "touchChain c \<Longrightarrow> i < j \<Longrightarrow> j < length c \<Longrightarrow>
   begin' (c ! i) \<le> end' (c ! i) \<and> end' (c ! i) \<le> begin' (c ! j)"
proof (induction c arbitrary: i j)
  case Nil
  then show ?case by simp
next
  case (Cons x xs)
  show ?case
  proof (cases i)
    case 0
    with Cons.prems obtain j' where "j = Suc j'" "j' < length xs" by (cases j) auto
    with Cons.prems(1) 0 show ?thesis by auto
  next
    case (Suc i')
    with Cons.prems obtain j' where "j = Suc j'" "j' < length xs" "i' < j'" by (cases j) auto
    with Cons.IH [of i' j'] Cons.prems(1) Suc show ?thesis by simp
  qed
qed

lemma touchChain_dist_forward:
  assumes "touchChain c" "i < j" "j < length c"
  shows "0 \<le> Interval_dist (c ! i) (c ! j)"
  using touchChain_nth [OF assms] by (simp add: Interval_dist_def)

lemma touchChain_dist_backward:
  assumes "touchChain c" "i < j" "j < length c" "begin' (c ! i) < end' (c ! i)"
  shows "0 \<le> Interval_dist (c ! j) (c ! i)"
  using touchChain_nth [OF assms(1,2,3)] assms(4) by (simp add: Interval_dist_def)

lemma touchChain_sorted: "touchChain c \<Longrightarrow> sorted (map begin' c)"
  by (induction c) fastforce+

lemma looseChain_intro:
  "sorted (map begin' c) \<Longrightarrow> \<forall>I\<in>set c. begin' I \<le> end' I \<Longrightarrow>
   \<forall>i j. i < j \<and> j < length c \<longrightarrow> 0 < Interval_dist (c ! i) (c ! j) \<Longrightarrow> looseChain c"
proof (induction c)
  case Nil
  then show ?case by simp
next
  case (Cons x xs)
  have tail: "\<forall>i j. i < j \<and> j < length xs \<longrightarrow> 0 < Interval_dist (xs ! i) (xs ! j)"
  proof (intro allI impI)
    fix i j assume "i < j \<and> j < length xs"
    then have "Suc i < Suc j \<and> Suc j < length (x # xs)" by simp
    with Cons.prems(3) have "0 < Interval_dist ((x # xs) ! Suc i) ((x # xs) ! Suc j)" by blast
    then show "0 < Interval_dist (xs ! i) (xs ! j)" by simp
  qed
  have head: "\<forall>y\<in>set xs. end' x < begin' y"
  proof
    fix y assume "y \<in> set xs"
    then obtain j where j: "j < length xs" "xs ! j = y" by (auto simp: in_set_conv_nth)
    then have "0 < Suc j \<and> Suc j < length (x # xs)" by simp
    with Cons.prems(3) have "0 < Interval_dist ((x # xs) ! 0) ((x # xs) ! Suc j)" by blast
    with j have d: "0 < Interval_dist x y" by simp
    from Cons.prems(1) \<open>y \<in> set xs\<close> have "begin' x \<le> begin' y" by simp
    with d show "end' x < begin' y" by (simp add: Interval_dist_def)
  qed
  from Cons.IH [OF _ _ tail] Cons.prems(1,2) head show ?case by simp
qed

lemma wholeButLast_intro:
  "\<forall>k. Suc k < length c \<longrightarrow> endsWholeOrLong (c ! k) \<Longrightarrow> wholeButLast c"
proof (induction c)
  case Nil
  then show ?case by simp
next
  case (Cons x xs)
  have "\<forall>k. Suc k < length xs \<longrightarrow> endsWholeOrLong (xs ! k)"
  proof (intro allI impI)
    fix k assume "Suc k < length xs"
    then have "Suc (Suc k) < length (x # xs)" by simp
    with Cons.prems have "endsWholeOrLong ((x # xs) ! Suc k)" by blast
    then show "endsWholeOrLong (xs ! k)" by simp
  qed
  with Cons.IH have "wholeButLast xs" by blast
  moreover have "endsWholeOrLong x" if "xs \<noteq> []"
  proof -
    from that have "Suc 0 < length (x # xs)" by (cases xs) simp_all
    with Cons.prems have "endsWholeOrLong ((x # xs) ! 0)" by blast
    then show ?thesis by simp
  qed
  ultimately show ?case by simp
qed

lemma midpoint_gt_begin:
  assumes "end' A < begin' B" "begin' A < end' A" "endsWholeOrLong A"
  shows "begin' A < midpoint A B"
proof (cases "end' A \<in> \<int>")
  case True
  from midpoint_ge_end [OF assms(1) True] assms(2) show ?thesis by simp
next
  case False
  with assms(3) have long: "begin' A + 1 \<le> end' A" by (simp add: endsWholeOrLong_def)
  have "(end' A + begin' B) / 2 - 1 < real_of_int \<lfloor>(end' A + begin' B) / 2\<rfloor>" by linarith
  moreover have "end' A < (end' A + begin' B) / 2" using assms(1) by simp
  ultimately show ?thesis unfolding midpoint_def using long by linarith
qed

lemma chainFrom_length [simp]: "length (chainFrom maxGap b c) = length c"
  by (induction maxGap b c rule: chainFrom.induct) simp_all

lemma chainFrom_head_begin: "c \<noteq> [] \<Longrightarrow> begin' (chainFrom maxGap b c ! 0) = b"
  by (induction maxGap b c rule: chainFrom.induct) simp_all

lemma chainFrom_ignores_head_begin:
  "chainFrom maxGap b (x\<lparr>begin' := b'\<rparr> # xs) = chainFrom maxGap b (x # xs)"
  by (cases xs) (simp_all add: midpoint_def)

lemma chainFrom_midpoints:
  "Suc k < length c \<Longrightarrow> begin' (c ! Suc k) - end' (c ! k) \<le> maxGap \<Longrightarrow>
   end' (chainFrom maxGap b c ! k) = midpoint (c ! k) (c ! Suc k) \<and>
   begin' (chainFrom maxGap b c ! Suc k) = midpoint (c ! k) (c ! Suc k)"
proof (induction maxGap b c arbitrary: k rule: chainFrom.induct)
  case (1 maxGap b)
  then show ?case by simp
next
  case (2 maxGap b x)
  then show ?case by simp
next
  case (3 maxGap b x y zs)
  show ?case
  proof (cases k)
    case 0
    with 3(4) have near: "begin' y - end' x \<le> maxGap" by simp
    have "begin' (chainFrom maxGap (midpoint x y) (y # zs) ! 0) = midpoint x y"
      by (rule chainFrom_head_begin) simp
    with 0 near show ?thesis by simp
  next
    case (Suc k')
    with 3(3,4) have k': "Suc k' < length (y # zs)"
      and g: "begin' ((y # zs) ! Suc k') - end' ((y # zs) ! k') \<le> maxGap" by simp_all
    show ?thesis
    proof (cases "begin' y - end' x \<le> maxGap")
      case True
      from 3(1) [OF True k' g] True Suc show ?thesis by simp
    next
      case False
      from 3(2) [OF False k' g] False Suc show ?thesis by simp
    qed
  qed
qed

lemma chainFrom_touchChain:
  "looseChain c \<Longrightarrow> wholeButLast c \<Longrightarrow> c \<noteq> [] \<Longrightarrow> b \<le> begin' (hd c) \<Longrightarrow>
   touchChain (chainFrom maxGap b c) \<and> (\<forall>I\<in>set (chainFrom maxGap b c). b \<le> begin' I)"
proof (induction maxGap b c rule: chainFrom.induct)
  case (1 maxGap b)
  then show ?case by simp
next
  case (2 maxGap b x)
  then show ?case by simp
next
  case (3 maxGap b x y zs)
  from 3(3) have sx: "begin' x \<le> end' x" and xy: "end' x < begin' y"
    and tl: "looseChain (y # zs)" by simp_all
  from 3(4) have wx: "endsWholeOrLong x" and wtl: "wholeButLast (y # zs)" by simp_all
  from 3(6) have bx: "b \<le> begin' x" by simp
  show ?case
  proof (cases "begin' y - end' x \<le> maxGap")
    case True
    note m1 = midpoint_less [OF xy] and m2 = midpoint_ge_begin [OF xy sx wx]
    from 3(1) [OF True tl wtl] m1
    have ih: "touchChain (chainFrom maxGap (midpoint x y) (y # zs))"
      "\<forall>I\<in>set (chainFrom maxGap (midpoint x y) (y # zs)). midpoint x y \<le> begin' I" by simp_all
    from ih(2) m2 bx have "\<forall>I\<in>set (chainFrom maxGap (midpoint x y) (y # zs)). b \<le> begin' I"
      by fastforce
    with ih True bx m2 show ?thesis by simp
  next
    case False
    from 3(2) [OF False tl wtl]
    have ih: "touchChain (chainFrom maxGap (begin' y) (y # zs))"
      "\<forall>I\<in>set (chainFrom maxGap (begin' y) (y # zs)). begin' y \<le> begin' I" by simp_all
    from ih(2) xy sx bx have "\<forall>I\<in>set (chainFrom maxGap (begin' y) (y # zs)). b \<le> begin' I"
      and "\<forall>I\<in>set (chainFrom maxGap (begin' y) (y # zs)). end' x \<le> begin' I"
      by fastforce+
    with ih False sx bx show ?thesis by simp
  qed
qed

lemma chainFrom_nonempty:
  "looseChain c \<Longrightarrow> wholeButLast c \<Longrightarrow> \<forall>I\<in>set c. begin' I < end' I \<Longrightarrow> c \<noteq> [] \<Longrightarrow>
   b \<le> begin' (hd c) \<Longrightarrow> \<forall>I\<in>set (chainFrom maxGap b c). begin' I < end' I"
proof (induction maxGap b c rule: chainFrom.induct)
  case (1 maxGap b)
  then show ?case by simp
next
  case (2 maxGap b x)
  then show ?case by simp
next
  case (3 maxGap b x y zs)
  from 3(3) have xy: "end' x < begin' y" and tl: "looseChain (y # zs)" by simp_all
  from 3(4) have wx: "endsWholeOrLong x" and wtl: "wholeButLast (y # zs)" by simp_all
  from 3(5) have sx: "begin' x < end' x" and stl: "\<forall>I\<in>set (y # zs). begin' I < end' I" by simp_all
  from 3(7) have bx: "b \<le> begin' x" by simp
  show ?case
  proof (cases "begin' y - end' x \<le> maxGap")
    case True
    note m1 = midpoint_less [OF xy] and m2 = midpoint_gt_begin [OF xy sx wx]
    from 3(1) [OF True tl wtl stl] m1
    have "\<forall>I\<in>set (chainFrom maxGap (midpoint x y) (y # zs)). begin' I < end' I" by simp
    with True bx m2 show ?thesis by simp
  next
    case False
    from 3(2) [OF False tl wtl stl]
    have "\<forall>I\<in>set (chainFrom maxGap (begin' y) (y # zs)). begin' I < end' I" by simp
    with False sx bx show ?thesis by simp
  qed
qed

lemma bridgeChain_length [simp]: "length (bridgeChain maxGap c) = length c"
  by (simp add: bridgeChain_def split: list.splits)

lemma bridgeChain_touchChain:
  "looseChain c \<Longrightarrow> wholeButLast c \<Longrightarrow> touchChain (bridgeChain maxGap c)"
proof (cases c)
  case Nil
  then show ?thesis by (simp add: bridgeChain_def)
next
  case (Cons x xs)
  assume "looseChain c" "wholeButLast c"
  from chainFrom_touchChain [OF this, of "begin' x" maxGap] Cons
  show ?thesis by (simp add: bridgeChain_def)
qed

lemma bridgeChain_nonempty:
  "looseChain c \<Longrightarrow> wholeButLast c \<Longrightarrow> \<forall>I\<in>set c. begin' I < end' I \<Longrightarrow>
   \<forall>I\<in>set (bridgeChain maxGap c). begin' I < end' I"
proof (cases c)
  case Nil
  then show ?thesis by (simp add: bridgeChain_def)
next
  case (Cons x xs)
  assume "looseChain c" "wholeButLast c" "\<forall>I\<in>set c. begin' I < end' I"
  from chainFrom_nonempty [OF this, of "begin' x" maxGap] Cons
  show ?thesis by (simp add: bridgeChain_def)
qed

lemma bridgeChain_midpoints:
  "Suc k < length c \<Longrightarrow> begin' (c ! Suc k) - end' (c ! k) \<le> maxGap \<Longrightarrow>
   end' (bridgeChain maxGap c ! k) = midpoint (c ! k) (c ! Suc k) \<and>
   begin' (bridgeChain maxGap c ! Suc k) = midpoint (c ! k) (c ! Suc k)"
  using chainFrom_midpoints [of k c maxGap]
  by (cases c) (simp_all add: bridgeChain_def)

lemma ofChannel_Cons:
  "ofChannel ty (x # xs) = (if type' x = ty then x # ofChannel ty xs else ofChannel ty xs)"
  by (simp add: ofChannel_def)

lemma ofChannel_Nil [simp]: "ofChannel ty [] = []"
  by (simp add: ofChannel_def)

lemma bridgeScan_channel_empty:
  "ofChannel ty later = [] \<Longrightarrow> bridgeScan ty maxGap A later = (A, later)"
  by (induction later) (auto simp: ofChannel_Cons split: if_splits)

lemma bridgeScan_channel_Cons:
  "ofChannel ty later = B # rest \<Longrightarrow> begin' A \<le> end' A \<Longrightarrow> end' A < begin' B \<Longrightarrow>
   (if begin' B - end' A \<le> maxGap
    then fst (bridgeScan ty maxGap A later) = A\<lparr>end' := midpoint A B\<rparr>
         \<and> ofChannel ty (snd (bridgeScan ty maxGap A later)) = B\<lparr>begin' := midpoint A B\<rparr> # rest
    else bridgeScan ty maxGap A later = (A, later))"
proof (induction later)
  case Nil
  then show ?case by simp
next
  case (Cons y later)
  show ?case
  proof (cases "type' y = ty")
    case False
    with Cons.prems(1) have "ofChannel ty later = B # rest" by (simp add: ofChannel_Cons)
    from Cons.IH [OF this Cons.prems(2,3)] False show ?thesis
      by (simp add: ofChannel_Cons split: if_splits)
  next
    case True
    with Cons.prems(1) have y: "y = B" and rest: "ofChannel ty later = rest"
      by (simp_all add: ofChannel_Cons)
    from Cons.prems(2,3) have d: "Interval_dist A B = begin' B - end' A"
      by (simp add: Interval_dist_def)
    with Cons.prems(3) have pos: "\<not> Interval_dist A B \<le> 0" by simp
    from True y have tB: "type' B = ty" by simp
    show ?thesis using pos d tB rest unfolding y
      by (simp add: ofChannel_Cons)
  qed
qed

lemma bridgeSweep_channel:
  "looseChain (ofChannel ty xs) \<Longrightarrow>
   ofChannel ty (bridgeSweep ty maxGap xs) = bridgeChain maxGap (ofChannel ty xs)"
proof (induction ty maxGap xs rule: bridgeSweep.induct)
  case (1 ty maxGap)
  then show ?case by (simp add: bridgeChain_def)
next
  case (2 ty maxGap A later)
  show ?case
  proof (cases "type' A \<noteq> ty")
    case True
    with 2(1) [OF True] 2(3) show ?thesis by (simp add: ofChannel_Cons)
  next
    case False
    then have tA: "type' A = ty" by simp
    let ?r = "bridgeScan ty maxGap A later"
    from 2(3) tA have sc: "looseChain (A # ofChannel ty later)" by (simp add: ofChannel_Cons)
    show ?thesis
    proof (cases "ofChannel ty later")
      case Nil
      from bridgeScan_channel_empty [OF Nil, of maxGap A] have r: "?r = (A, later)" .
      from 2(2) [OF False] Nil r have "ofChannel ty (bridgeSweep ty maxGap later) = []"
        by (simp add: bridgeChain_def)
      with r tA Nil show ?thesis by (simp add: ofChannel_Cons bridgeChain_def)
    next
      case (Cons B rest)
      with sc have sA: "begin' A \<le> end' A" and AB: "end' A < begin' B"
        and sB: "looseChain (B # rest)" by simp_all
      note scan = bridgeScan_channel_Cons [OF Cons sA AB, of maxGap]
      show ?thesis
      proof (cases "begin' B - end' A \<le> maxGap")
        case True
        with scan have f: "fst ?r = A\<lparr>end' := midpoint A B\<rparr>"
          and c: "ofChannel ty (snd ?r) = B\<lparr>begin' := midpoint A B\<rparr> # rest" by simp_all
        from midpoint_less [OF AB] sB
        have "looseChain (B\<lparr>begin' := midpoint A B\<rparr> # rest)" by simp
        with 2(2) [OF False] c
        have "ofChannel ty (bridgeSweep ty maxGap (snd ?r))
              = bridgeChain maxGap (B\<lparr>begin' := midpoint A B\<rparr> # rest)" by simp
        also have "\<dots> = chainFrom maxGap (midpoint A B) (B # rest)"
          by (simp add: bridgeChain_def chainFrom_ignores_head_begin)
        finally show ?thesis using True f tA Cons
          by (simp add: ofChannel_Cons bridgeChain_def)
      next
        case far: False
        with scan have r: "?r = (A, later)" by simp
        from 2(2) [OF False] r Cons sB
        have "ofChannel ty (bridgeSweep ty maxGap later) = bridgeChain maxGap (B # rest)" by simp
        with far r tA Cons show ?thesis by (simp add: ofChannel_Cons bridgeChain_def)
      qed
    qed
  qed
qed

lemma apply_channel:
  assumes "looseChain (ofChannel ty (intervals iir))"
    and "wholeButLast (ofChannel ty (intervals iir))"
  shows "ofChannel ty (intervals (IIRPassFillFlashBlank_apply ty maxGap iir))
         = bridgeChain maxGap (ofChannel ty (intervals iir))"
proof -
  have "ofChannel ty (sort_key begin' (bridgeSweep ty maxGap (intervals iir)))
        = sort_key begin' (ofChannel ty (bridgeSweep ty maxGap (intervals iir)))"
    by (simp add: ofChannel_def filter_sort)
  also have "\<dots> = sort_key begin' (bridgeChain maxGap (ofChannel ty (intervals iir)))"
    by (simp only: bridgeSweep_channel [OF assms(1)])
  also have "\<dots> = bridgeChain maxGap (ofChannel ty (intervals iir))"
    by (rule sort_key_id_if_sorted) (rule touchChain_sorted [OF bridgeChain_touchChain [OF assms]])
  finally show ?thesis by (simp add: apply_bridgeGaps bridgeGaps_def)
qed

text \<open>
  Claim C4, as stated, fails. Intervals of the channel can overlap after the pass: from
  the sorted, non-overlapping \<open>[0,100)\<close>, \<open>[100,200)\<close>, \<open>[250,300)\<close> with
  \<open>maxGap = 150\<close> the scan for the first interval passes over the touching second one
  and bridges to the third, leaving \<open>[0,175)\<close> and \<open>[100,200)\<close> at distance \<open>-75\<close>.
  A disjoint same-channel pair within \<open>maxGap\<close> that is not adjacent is not bridged
  with each other: for \<open>[0,100)\<close>, \<open>[110,120)\<close>, \<open>[130,200)\<close> with \<open>maxGap = 100\<close> the
  first and third are at distance 30 with midpoint 115, but end the pass as
  \<open>[0,105)\<close> and \<open>[125,200)\<close>. An empty interval can end up beginning together with
  its successor: \<open>[5,5)\<close>, \<open>[6,7)\<close> become \<open>[5,5)\<close>, \<open>[5,7)\<close>, and the distance taken
  from the second to the first is \<open>-2\<close>. On fractional timestamps the floor of the
  midpoint can fall before the first interval: \<open>[10.2,10.5)\<close>, \<open>[10.7,11)\<close> become
  \<open>[10.2,10)\<close> and \<open>[10,11)\<close> at distance \<open>-0.8\<close>.
\<close>

theorem bridging_overlap_and_distant_pair:
  "IIRPassFillFlashBlank_apply DIALOG 150 \<lparr>intervals = [\<lparr>begin' = 0, end' = 100, type' = DIALOG\<rparr>, \<lparr>begin' = 100, end' = 200, type' = DIALOG\<rparr>, \<lparr>begin' = 250, end' = 300, type' = DIALOG\<rparr>]\<rparr>
     = \<lparr>intervals = [\<lparr>begin' = 0, end' = 175, type' = DIALOG\<rparr>, \<lparr>begin' = 100, end' = 200, type' = DIALOG\<rparr>, \<lparr>begin' = 175, end' = 300, type' = DIALOG\<rparr>]\<rparr> \<and>
   Interval_dist \<lparr>begin' = 0, end' = 175, type' = DIALOG\<rparr> \<lparr>begin' = 100, end' = 200, type' = DIALOG\<rparr> = - 75 \<and>
   Interval_dist \<lparr>begin' = 0, end' = 100, type' = DIALOG\<rparr> \<lparr>begin' = 130, end' = 200, type' = DIALOG\<rparr> = 30 \<and>
   real_of_int \<lfloor>(end' \<lparr>begin' = 0, end' = 100, type' = DIALOG\<rparr> + begin' \<lparr>begin' = 130, end' = 200, type' = DIALOG\<rparr>) / 2\<rfloor> = 115 \<and>
   IIRPassFillFlashBlank_apply DIALOG 100 \<lparr>intervals = [\<lparr>begin' = 0, end' = 100, type' = DIALOG\<rparr>, \<lparr>begin' = 110, end' = 120, type' = DIALOG\<rparr>, \<lparr>begin' = 130, end' = 200, type' = DIALOG\<rparr>]\<rparr>
     = \<lparr>intervals = [\<lparr>begin' = 0, end' = 105, type' = DIALOG\<rparr>, \<lparr>begin' = 105, end' = 125, type' = DIALOG\<rparr>, \<lparr>begin' = 125, end' = 200, type' = DIALOG\<rparr>]\<rparr> \<and>
   IIRPassFillFlashBlank_apply DIALOG 10 \<lparr>intervals = [\<lparr>begin' = 5, end' = 5, type' = DIALOG\<rparr>, \<lparr>begin' = 6, end' = 7, type' = DIALOG\<rparr>]\<rparr>
     = \<lparr>intervals = [\<lparr>begin' = 5, end' = 5, type' = DIALOG\<rparr>, \<lparr>begin' = 5, end' = 7, type' = DIALOG\<rparr>]\<rparr> \<and>
   Interval_dist \<lparr>begin' = 5, end' = 7, type' = DIALOG\<rparr> \<lparr>begin' = 5, end' = 5, type' = DIALOG\<rparr> = - 2 \<and>
   IIRPassFillFlashBlank_apply DIALOG 300 \<lparr>intervals = [\<lparr>begin' = 51 / 5, end' = 21 / 2, type' = DIALOG\<rparr>, \<lparr>begin' = 107 / 10, end' = 11, type' = DIALOG\<rparr>]\<rparr>
     = \<lparr>intervals = [\<lparr>begin' = 10, end' = 11, type' = DIALOG\<rparr>, \<lparr>begin' = 51 / 5, end' = 10, type' = DIALOG\<rparr>]\<rparr> \<and>
   Interval_dist \<lparr>begin' = 10, end' = 11, type' = DIALOG\<rparr> \<lparr>begin' = 51 / 5, end' = 10, type' = DIALOG\<rparr> = - 4 / 5"
  by code_simp

text \<open>
  Claim C4, amended. Let the collection be sorted by begin, let the channel's intervals
  begin no later than they end and be pairwise strictly disjoint (positive distance),
  and let each of them except the last end at an integer timestamp or last at least
  one millisecond. Then after the gap-bridging pass for that channel the channel has as
  many intervals as before; no interval of the channel has negative distance to a later
  one of the channel (and, when the channel's intervals were all non-empty, none has
  negative distance to any other one, in either order); and every pair \<open>(A, B)\<close>
  adjacent within the channel with \<open>0 < dist(A, B) \<le> maxGap\<close> ends the pass with
  \<open>A.end\<close> and \<open>B.begin\<close> both equal to \<open>floor((A.end + B.begin) / 2)\<close> of the values
  before the pass.
\<close>

theorem bridging_disjoint_and_midpoints:
  assumes srt: "sorted (map begin' (intervals iir))"
    and ne: "\<forall>I\<in>set (ofChannel ty (intervals iir)). begin' I \<le> end' I"
    and dj: "\<forall>i j. i < j \<and> j < length (ofChannel ty (intervals iir)) \<longrightarrow>
               0 < Interval_dist (ofChannel ty (intervals iir) ! i) (ofChannel ty (intervals iir) ! j)"
    and whole: "\<forall>k. Suc k < length (ofChannel ty (intervals iir)) \<longrightarrow>
               endsWholeOrLong (ofChannel ty (intervals iir) ! k)"
  shows "length (ofChannel ty (intervals (IIRPassFillFlashBlank_apply ty maxGap iir)))
           = length (ofChannel ty (intervals iir)) \<and>
         (\<forall>i j. i < j \<and> j < length (ofChannel ty (intervals iir)) \<longrightarrow>
            0 \<le> Interval_dist
                  (ofChannel ty (intervals (IIRPassFillFlashBlank_apply ty maxGap iir)) ! i)
                  (ofChannel ty (intervals (IIRPassFillFlashBlank_apply ty maxGap iir)) ! j)) \<and>
         ((\<forall>I\<in>set (ofChannel ty (intervals iir)). begin' I < end' I) \<longrightarrow>
          (\<forall>i j. i < length (ofChannel ty (intervals iir)) \<and> j < length (ofChannel ty (intervals iir))
                 \<and> i \<noteq> j \<longrightarrow>
            0 \<le> Interval_dist
                  (ofChannel ty (intervals (IIRPassFillFlashBlank_apply ty maxGap iir)) ! i)
                  (ofChannel ty (intervals (IIRPassFillFlashBlank_apply ty maxGap iir)) ! j))) \<and>
         (\<forall>k. Suc k < length (ofChannel ty (intervals iir))
               \<and> 0 < Interval_dist (ofChannel ty (intervals iir) ! k)
                                      (ofChannel ty (intervals iir) ! Suc k)
               \<and> Interval_dist (ofChannel ty (intervals iir) ! k)
                                  (ofChannel ty (intervals iir) ! Suc k) \<le> maxGap \<longrightarrow>
            end' (ofChannel ty (intervals (IIRPassFillFlashBlank_apply ty maxGap iir)) ! k)
              = real_of_int \<lfloor>(end' (ofChannel ty (intervals iir) ! k)
                 + begin' (ofChannel ty (intervals iir) ! Suc k)) / 2\<rfloor> \<and>
            begin' (ofChannel ty (intervals (IIRPassFillFlashBlank_apply ty maxGap iir)) ! Suc k)
              = real_of_int \<lfloor>(end' (ofChannel ty (intervals iir) ! k)
                 + begin' (ofChannel ty (intervals iir) ! Suc k)) / 2\<rfloor>)"
proof -
  let ?c = "ofChannel ty (intervals iir)"
  let ?c' = "ofChannel ty (intervals (IIRPassFillFlashBlank_apply ty maxGap iir))"
  have "sorted (map begin' ?c)" using srt by (simp add: ofChannel_def sorted_filter)
  from looseChain_intro [OF this ne dj] have sc: "looseChain ?c" .
  from wholeButLast_intro [OF whole] have wc: "wholeButLast ?c" .
  have out: "?c' = bridgeChain maxGap ?c" by (rule apply_channel [OF sc wc])
  have len: "length ?c' = length ?c" by (simp add: out)
  have tc: "touchChain ?c'" unfolding out by (rule bridgeChain_touchChain [OF sc wc])
  have fwd: "\<forall>i j. i < j \<and> j < length ?c \<longrightarrow> 0 \<le> Interval_dist (?c' ! i) (?c' ! j)"
    using touchChain_dist_forward [OF tc] len by simp
  have both: "\<forall>i j. i < length ?c \<and> j < length ?c \<and> i \<noteq> j \<longrightarrow> 0 \<le> Interval_dist (?c' ! i) (?c' ! j)"
    if strict: "\<forall>I\<in>set ?c. begin' I < end' I"
  proof (intro allI impI)
    fix i j assume h: "i < length ?c \<and> j < length ?c \<and> i \<noteq> j"
    have ne': "\<forall>I\<in>set ?c'. begin' I < end' I"
      unfolding out by (rule bridgeChain_nonempty [OF sc wc strict])
    show "0 \<le> Interval_dist (?c' ! i) (?c' ! j)"
    proof (cases "i < j")
      case True
      with h len show ?thesis using touchChain_dist_forward [OF tc, of i j] by simp
    next
      case False
      with h have ji: "j < i" by simp
      from h len ne' have "begin' (?c' ! j) < end' (?c' ! j)" by simp
      with h len ji show ?thesis using touchChain_dist_backward [OF tc, of j i] by simp
    qed
  qed
  have mid: "\<forall>k. Suc k < length ?c \<and> 0 < Interval_dist (?c ! k) (?c ! Suc k)
               \<and> Interval_dist (?c ! k) (?c ! Suc k) \<le> maxGap \<longrightarrow>
            end' (?c' ! k) = real_of_int \<lfloor>(end' (?c ! k) + begin' (?c ! Suc k)) / 2\<rfloor> \<and>
            begin' (?c' ! Suc k) = real_of_int \<lfloor>(end' (?c ! k) + begin' (?c ! Suc k)) / 2\<rfloor>"
  proof (intro allI impI)
    fix k
    assume h: "Suc k < length ?c \<and> 0 < Interval_dist (?c ! k) (?c ! Suc k)
               \<and> Interval_dist (?c ! k) (?c ! Suc k) \<le> maxGap"
    then have k: "Suc k < length ?c" by simp
    from looseChain_nth [OF sc _ k, of k]
    have "Interval_dist (?c ! k) (?c ! Suc k) = begin' (?c ! Suc k) - end' (?c ! k)"
      by (simp add: Interval_dist_def)
    with h have "begin' (?c ! Suc k) - end' (?c ! k) \<le> maxGap" by simp
    from bridgeChain_midpoints [OF k this]
    show "end' (?c' ! k) = real_of_int \<lfloor>(end' (?c ! k) + begin' (?c ! Suc k)) / 2\<rfloor> \<and>
          begin' (?c' ! Suc k) = real_of_int \<lfloor>(end' (?c ! k) + begin' (?c ! Suc k)) / 2\<rfloor>"
      unfolding out midpoint_def .
  qed
  from len fwd both mid show ?thesis by blast
qed

theorem bridging_disjoint_and_midpoints_witness:
  "sorted (map begin' [\<lparr>begin' = 0, end' = 100, type' = DIALOG\<rparr>, \<lparr>begin' = 120, end' = 130, type' = CGSUB\<rparr>, \<lparr>begin' = 150, end' = 150, type' = DIALOG\<rparr>]) \<and>
   endsWholeOrLong \<lparr>begin' = 0, end' = 100, type' = DIALOG\<rparr> \<and>
   ofChannel DIALOG (intervals (IIRPassFillFlashBlank_apply DIALOG 100 \<lparr>intervals = [\<lparr>begin' = 0, end' = 100, type' = DIALOG\<rparr>, \<lparr>begin' = 120, end' = 130, type' = CGSUB\<rparr>, \<lparr>begin' = 150, end' = 150, type' = DIALOG\<rparr>]\<rparr>))
     = [\<lparr>begin' = 0, end' = 125, type' = DIALOG\<rparr>, \<lparr>begin' = 125, end' = 150, type' = DIALOG\<rparr>] \<and>
   0 \<le> Interval_dist
         (ofChannel DIALOG (intervals (IIRPassFillFlashBlank_apply DIALOG 100 \<lparr>intervals = [\<lparr>begin' = 0, end' = 100, type' = DIALOG\<rparr>, \<lparr>begin' = 120, end' = 130, type' = CGSUB\<rparr>, \<lparr>begin' = 150, end' = 150, type' = DIALOG\<rparr>]\<rparr>)) ! 0)
         (ofChannel DIALOG (intervals (IIRPassFillFlashBlank_apply DIALOG 100 \<lparr>intervals = [\<lparr>begin' = 0, end' = 100, type' = DIALOG\<rparr>, \<lparr>begin' = 120, end' = 130, type' = CGSUB\<rparr>, \<lparr>begin' = 150, end' = 150, type' = DIALOG\<rparr>]\<rparr>)) ! 1) \<and>
   end' (ofChannel DIALOG (intervals (IIRPassFillFlashBlank_apply DIALOG 100 \<lparr>intervals = [\<lparr>begin' = 0, end' = 100, type' = DIALOG\<rparr>, \<lparr>begin' = 120, end' = 130, type' = CGSUB\<rparr>, \<lparr>begin' = 150, end' = 150, type' = DIALOG\<rparr>]\<rparr>)) ! 0)
     = 125"
proof -
  let ?iir = "\<lparr>intervals = [\<lparr>begin' = 0, end' = 100, type' = DIALOG\<rparr>, \<lparr>begin' = 120, end' = 130, type' = CGSUB\<rparr>, \<lparr>begin' = 150, end' = 150, type' = DIALOG\<rparr>]\<rparr>"
  have c: "ofChannel DIALOG (intervals ?iir) = [\<lparr>begin' = 0, end' = 100, type' = DIALOG\<rparr>, \<lparr>begin' = 150, end' = 150, type' = DIALOG\<rparr>]" by (simp add: ofChannel_def)
  have srt: "sorted (map begin' (intervals ?iir))" by simp
  have ne: "\<forall>I\<in>set (ofChannel DIALOG (intervals ?iir)). begin' I \<le> end' I"
    unfolding c by simp
  have dj: "\<forall>i j. i < j \<and> j < length (ofChannel DIALOG (intervals ?iir)) \<longrightarrow>
               0 < Interval_dist (ofChannel DIALOG (intervals ?iir) ! i)
                                 (ofChannel DIALOG (intervals ?iir) ! j)"
    unfolding c
  proof (intro allI impI)
    fix i j :: nat assume "i < j \<and> j < length [\<lparr>begin' = 0, end' = 100, type' = DIALOG\<rparr>, \<lparr>begin' = 150, end' = 150, type' = DIALOG\<rparr>]"
    then have "i = 0" "j = 1" by simp_all
    then show "0 < Interval_dist ([\<lparr>begin' = 0, end' = 100, type' = DIALOG\<rparr>, \<lparr>begin' = 150, end' = 150, type' = DIALOG\<rparr>] ! i) ([\<lparr>begin' = 0, end' = 100, type' = DIALOG\<rparr>, \<lparr>begin' = 150, end' = 150, type' = DIALOG\<rparr>] ! j)"
      by (simp add: Interval_dist_def)
  qed
  have whole: "\<forall>k. Suc k < length (ofChannel DIALOG (intervals ?iir)) \<longrightarrow>
               endsWholeOrLong (ofChannel DIALOG (intervals ?iir) ! k)"
    unfolding c by (simp add: endsWholeOrLong_def)
  have val: "ofChannel DIALOG (intervals (IIRPassFillFlashBlank_apply DIALOG 100 ?iir)) = [\<lparr>begin' = 0, end' = 125, type' = DIALOG\<rparr>, \<lparr>begin' = 125, end' = 150, type' = DIALOG\<rparr>]"
    by code_simp
  have w0: "endsWholeOrLong \<lparr>begin' = 0, end' = 100, type' = DIALOG\<rparr>" by (simp add: endsWholeOrLong_def)
  note inst = bridging_disjoint_and_midpoints [OF srt ne dj whole, of 100]
  from inst have "0 \<le> Interval_dist
         (ofChannel DIALOG (intervals (IIRPassFillFlashBlank_apply DIALOG 100 ?iir)) ! 0)
         (ofChannel DIALOG (intervals (IIRPassFillFlashBlank_apply DIALOG 100 ?iir)) ! 1)"
    unfolding c by simp
  moreover from inst have "end' (ofChannel DIALOG (intervals (IIRPassFillFlashBlank_apply DIALOG 100 ?iir)) ! 0)
     = 125"
    unfolding c by (simp add: Interval_dist_def)
  ultimately show ?thesis using val w0 by simp
qed

end
